theory Spec2Isabelle
  imports Main "HOL-Library.Word" "HOL-Library.Sublist"
begin

section \<open>Strings, bytes and the character classes of the runtime\<close>

text \<open>
  A Python \<open>str\<close> is a sequence of Unicode code points and \<open>bytes\<close> is a sequence of
  octets. Lengths of strings therefore count code points, as \<open>len\<close> does.
\<close>

type_synonym pystr = "nat list"
type_synonym byte = "8 word"

definition str :: "string \<Rightarrow> pystr" where
  \<comment> \<open>An ASCII literal of the source, as code points.\<close>
  "str s = map of_char s"

text \<open>
  \<open>str.isspace\<close>, which \<open>str.strip()\<close> and the pattern \<open>\s\<close> of \<open>re\<close> (on \<open>str\<close>
  patterns) both use: the complete whitespace table of the interpreter.
\<close>

definition isspace :: "nat \<Rightarrow> bool" where
  "isspace c \<longleftrightarrow>
     (9 \<le> c \<and> c \<le> 13) \<or> (28 \<le> c \<and> c \<le> 32) \<or> c = 133 \<or> c = 160 \<or> c = 5760 \<or>
     (8192 \<le> c \<and> c \<le> 8202) \<or> c = 8232 \<or> c = 8233 \<or> c = 8239 \<or> c = 8287 \<or> c = 12288"

text \<open>
  The pattern \<open>\w\<close> and \<open>str.lower()\<close> read the Unicode character database, which is
  not part of the repository: it is taken as a parameter. \<open>isalnum\<close> is the
  alphanumeric test behind \<open>\w\<close>; \<open>lower\<close> acts on whole strings, because Python's
  lowercasing may change the length of a string and depends on context.
\<close>

record unicode =
  isalnum :: "nat \<Rightarrow> bool"
  lower :: "pystr \<Rightarrow> pystr"

definition is_word :: "unicode \<Rightarrow> nat \<Rightarrow> bool" where
  \<comment> \<open>\<open>\w\<close>: alphanumeric or the underscore.\<close>
  "is_word U c \<longleftrightarrow> isalnum U c \<or> c = 95"

text \<open>The database restricted to ASCII, where it agrees with Python on ASCII strings.\<close>

definition ascii_isalnum :: "nat \<Rightarrow> bool" where
  "ascii_isalnum c \<longleftrightarrow> (48 \<le> c \<and> c \<le> 57) \<or> (65 \<le> c \<and> c \<le> 90) \<or> (97 \<le> c \<and> c \<le> 122)"

definition ascii_lower_char :: "nat \<Rightarrow> nat" where
  "ascii_lower_char c = (if 65 \<le> c \<and> c \<le> 90 then c + 32 else c)"

definition ascii :: unicode where
  "ascii = \<lparr>isalnum = ascii_isalnum, lower = map ascii_lower_char\<rparr>"

section \<open>Tokens\<close>

text \<open>\<open>re.findall(r"\w+", s)\<close>: the maximal runs of word characters, left to right.\<close>

function findall_w :: "unicode \<Rightarrow> pystr \<Rightarrow> pystr list" where
  "findall_w U [] = []"
| "findall_w U (c # cs) =
     (if is_word U c
      then (c # takeWhile (is_word U) cs) # findall_w U (dropWhile (is_word U) cs)
      else findall_w U cs)"
  by pat_completeness auto
termination
  by (relation "measure (\<lambda>(U, s). length s)")
     (auto simp: le_imp_less_Suc length_dropWhile_le)

section \<open>The corpus\<close>

record document =
  name :: pystr
  text_str :: pystr
  chunks :: "pystr list"

record match =
  file_name :: pystr
  chunk :: pystr
  score :: int
  index :: nat

section \<open>Retrieval\<close>

text \<open>
  \<open>results.sort(key=..., reverse=True)\<close>: Python's sort is stable, and with
  \<open>reverse=True\<close> elements with equal keys still keep their original order.
\<close>

definition sort_reverse :: "('a \<Rightarrow> int) \<Rightarrow> 'a list \<Rightarrow> 'a list" where
  "sort_reverse key xs = sort_key (\<lambda>x. - key x) xs"

text \<open>
  The slice \<open>xs[:k]\<close>: a negative bound counts from the end of the list.
\<close>

definition slice_to :: "int \<Rightarrow> 'a list \<Rightarrow> 'a list" where
  "slice_to k xs = (if 0 \<le> k then take (nat k) xs else take (nat (int (length xs) + k)) xs)"

text \<open>
  The loops of \<open>simple_retrieve\<close> are modelled together with a record of what they
  visit: the first component of a result is the value that the code computes, the
  second lists the chunks over which the loops have iterated, in order. The second
  component is not a value of the program; it makes the iteration itself observable.
\<close>

text \<open>The inner loop over \<open>enumerate(uf["chunks"])\<close>, from index \<open>i\<close>.\<close>

fun scan_chunks_traced ::
  "unicode \<Rightarrow> pystr list \<Rightarrow> pystr \<Rightarrow> nat \<Rightarrow> pystr list \<Rightarrow> match list \<times> pystr list" where
  "scan_chunks_traced U tokens f i [] = ([], [])"
| "scan_chunks_traced U tokens f i (c # cs) =
     (case scan_chunks_traced U tokens f (i + 1) cs of
        (results, visited) \<Rightarrow>
          (let words = findall_w U (lower U c) in
           if words = [] then (results, c # visited)
           else
             let sc = sum_list (map (\<lambda>t. int (count_list words t)) tokens) in
             if sc > 0
             then (\<lparr>file_name = f, chunk = c, score = sc, index = i\<rparr> # results, c # visited)
             else (results, c # visited)))"

text \<open>The outer loop over the documents of the session.\<close>

fun scan_files_traced ::
  "unicode \<Rightarrow> pystr list \<Rightarrow> document list \<Rightarrow> match list \<times> pystr list" where
  "scan_files_traced U tokens [] = ([], [])"
| "scan_files_traced U tokens (uf # ufs) =
     (case scan_chunks_traced U tokens (name uf) 0 (chunks uf) of
        (results, visited) \<Rightarrow>
          (case scan_files_traced U tokens ufs of
             (results', visited') \<Rightarrow> (results @ results', visited @ visited')))"

text \<open>
  \<open>simple_retrieve\<close> with its record of visits: the guard on the tokens of the query
  returns before any loop runs.
\<close>

definition simple_retrieve_traced ::
  "unicode \<Rightarrow> document list \<Rightarrow> pystr \<Rightarrow> int \<Rightarrow> match list \<times> pystr list" where
  "simple_retrieve_traced U uploaded_files query top_k =
     (let tokens = findall_w U (lower U query) in
      if tokens = [] then ([], [])
      else
        (case scan_files_traced U tokens uploaded_files of
           (results, visited) \<Rightarrow> (slice_to top_k (sort_reverse score results), visited)))"

text \<open>The value that \<open>simple_retrieve\<close> returns, and the chunks that the call visits.\<close>

definition simple_retrieve :: "unicode \<Rightarrow> document list \<Rightarrow> pystr \<Rightarrow> int \<Rightarrow> match list" where
  "simple_retrieve U uploaded_files query top_k =
     fst (simple_retrieve_traced U uploaded_files query top_k)"

definition scanned_chunks :: "unicode \<Rightarrow> document list \<Rightarrow> pystr \<Rightarrow> int \<Rightarrow> pystr list" where
  "scanned_chunks U uploaded_files query top_k =
     snd (simple_retrieve_traced U uploaded_files query top_k)"

text \<open>The matches that the two loops collect.\<close>

definition scan_chunks :: "unicode \<Rightarrow> pystr list \<Rightarrow> pystr \<Rightarrow> nat \<Rightarrow> pystr list \<Rightarrow> match list" where
  "scan_chunks U tokens f i cs = fst (scan_chunks_traced U tokens f i cs)"

definition scan_files :: "unicode \<Rightarrow> pystr list \<Rightarrow> document list \<Rightarrow> match list" where
  "scan_files U tokens ufs = fst (scan_files_traced U tokens ufs)"

section \<open>Chunking\<close>

definition strip :: "pystr \<Rightarrow> pystr" where
  \<comment> \<open>\<open>s.strip()\<close>: leading and trailing whitespace removed.\<close>
  "strip s = rev (dropWhile isspace (rev (dropWhile isspace s)))"

text \<open>
  \<open>re.split(r"\n{1,}", text)\<close>: the pieces between the maximal runs of newlines; a run
  at either end of the text leaves an empty piece there. \<open>acc\<close> is the piece being read.
\<close>

function split_newlines_from :: "pystr \<Rightarrow> pystr \<Rightarrow> pystr list" where
  "split_newlines_from acc [] = [acc]"
| "split_newlines_from acc (c # cs) =
     (if c = 10 then acc # split_newlines_from [] (dropWhile (\<lambda>x. x = 10) cs)
      else split_newlines_from (acc @ [c]) cs)"
  by pat_completeness auto
termination
  by (relation "measure (\<lambda>(acc, s). length s)")
     (auto simp: le_imp_less_Suc length_dropWhile_le)

definition split_newlines :: "pystr \<Rightarrow> pystr list" where
  "split_newlines s = split_newlines_from [] s"

definition is_terminator :: "nat \<Rightarrow> bool" where
  \<comment> \<open>The class \<open>[.!?]\<close>.\<close>
  "is_terminator c \<longleftrightarrow> c = 46 \<or> c = 33 \<or> c = 63"

text \<open>
  \<open>re.split(r"(?<=[.!?])\s+", p)\<close>: a separator is a maximal run of whitespace that
  stands right after one of \<open>.\<close>, \<open>!\<close>, \<open>?\<close>; the terminator stays in the piece before.
\<close>

function split_sentences_from :: "pystr \<Rightarrow> pystr \<Rightarrow> pystr list" where
  "split_sentences_from acc [] = [acc]"
| "split_sentences_from acc (c # cs) =
     (if is_terminator c \<and> cs \<noteq> [] \<and> isspace (hd cs)
      then (acc @ [c]) # split_sentences_from [] (dropWhile isspace cs)
      else split_sentences_from (acc @ [c]) cs)"
  by pat_completeness auto
termination
  by (relation "measure (\<lambda>(acc, s). length s)")
     (auto simp: le_imp_less_Suc length_dropWhile_le)

definition split_sentences :: "pystr \<Rightarrow> pystr list" where
  "split_sentences p = split_sentences_from [] p"

text \<open>
  The loop over the sentences of a large paragraph; the state is the list of chunks
  and the buffer \<open>buf\<close>.
\<close>

fun sentence_loop :: "int \<Rightarrow> pystr list \<Rightarrow> pystr list \<times> pystr \<Rightarrow> pystr list \<times> pystr" where
  "sentence_loop max_chars [] st = st"
| "sentence_loop max_chars (s # ss) (chs, buf) =
     (if int (length buf) + int (length s) + 1 > max_chars
      then sentence_loop max_chars ss ((if buf \<noteq> [] then chs @ [strip buf] else chs), s)
      else sentence_loop max_chars ss (chs, (if buf \<noteq> [] then buf @ [32] @ s else s)))"

text \<open>The loop over the paragraphs; the state is the list of chunks and \<open>current\<close>.\<close>

fun paragraph_loop :: "int \<Rightarrow> pystr list \<Rightarrow> pystr list \<times> pystr \<Rightarrow> pystr list \<times> pystr" where
  "paragraph_loop max_chars [] st = st"
| "paragraph_loop max_chars (p0 # ps) (chs, current) =
     (let p = strip p0 in
      if p = [] then paragraph_loop max_chars ps (chs, current)
      else if int (length current) + int (length p) + 1 > max_chars
      then
        (let chs1 = (if current \<noteq> [] then chs @ [strip current] else chs) in
         if int (length p) > max_chars
         then
           (case sentence_loop max_chars (split_sentences p) (chs1, []) of
              (chs2, buf) \<Rightarrow>
                paragraph_loop max_chars ps
                  ((if buf \<noteq> [] then chs2 @ [strip buf] else chs2), []))
         else paragraph_loop max_chars ps (chs1, p))
      else paragraph_loop max_chars ps
             (chs, (if current \<noteq> [] then current @ [10] @ p else p)))"

definition chunk_text :: "pystr \<Rightarrow> int \<Rightarrow> pystr list" where
  "chunk_text text max_chars =
     (if text = [] then []
      else
        (case paragraph_loop max_chars (split_newlines text) ([], []) of
           (chs, current) \<Rightarrow> if current \<noteq> [] then chs @ [strip current] else chs))"

section \<open>Extraction\<close>

datatype exn = UnicodeDecodeError | LibraryError

text \<open>
  \<open>data.decode("utf-8")\<close>, strict: overlong forms, surrogates, code points above
  \<open>U+10FFFF\<close> and truncated sequences raise \<open>UnicodeDecodeError\<close>.
\<close>

definition is_cont :: "nat \<Rightarrow> bool" where
  "is_cont c \<longleftrightarrow> 128 \<le> c \<and> c \<le> 191"

fun utf8_decode :: "nat list \<Rightarrow> pystr option" where
  "utf8_decode [] = Some []"
| "utf8_decode (b # bs) =
     (if b < 128 then map_option ((#) b) (utf8_decode bs)
      else if 194 \<le> b \<and> b \<le> 223 then
        (case bs of
           c1 # r \<Rightarrow>
             if is_cont c1
             then map_option ((#) ((b - 192) * 64 + (c1 - 128))) (utf8_decode r)
             else None
         | _ \<Rightarrow> None)
      else if 224 \<le> b \<and> b \<le> 239 then
        (case bs of
           c1 # c2 # r \<Rightarrow>
             if (if b = 224 then 160 else 128) \<le> c1 \<and> c1 \<le> (if b = 237 then 159 else 191)
                \<and> is_cont c2
             then map_option ((#) ((b - 224) * 4096 + (c1 - 128) * 64 + (c2 - 128)))
                    (utf8_decode r)
             else None
         | _ \<Rightarrow> None)
      else if 240 \<le> b \<and> b \<le> 244 then
        (case bs of
           c1 # c2 # c3 # r \<Rightarrow>
             if (if b = 240 then 144 else 128) \<le> c1 \<and> c1 \<le> (if b = 244 then 143 else 191)
                \<and> is_cont c2 \<and> is_cont c3
             then map_option
                    ((#) ((b - 240) * 262144 + (c1 - 128) * 4096 + (c2 - 128) * 64 + (c3 - 128)))
                    (utf8_decode r)
             else None
         | _ \<Rightarrow> None)
      else None)"

definition decode_utf8 :: "byte list \<Rightarrow> exn + pystr" where
  "decode_utf8 data =
     (case utf8_decode (map unat data) of None \<Rightarrow> Inl UnicodeDecodeError | Some s \<Rightarrow> Inr s)"

definition decode_latin1 :: "byte list \<Rightarrow> exn + pystr" where
  \<comment> \<open>\<open>data.decode("latin-1")\<close>: each octet is the code point of the same value.\<close>
  "decode_latin1 data = Inr (map unat data)"

text \<open>
  \<open>str(data)\<close> for a \<open>bytes\<close> object is its \<open>repr\<close>: \<open>b'...'\<close>, in double quotes when
  the data holds a single quote and no double quote, with the escapes \<open>\t \n \r \\\<close>,
  the quote escaped, and \<open>\xNN\<close> for every other octet outside printable ASCII. (The
  interpreter is run without its switch that turns this conversion into an error.)
\<close>

definition hex_digit :: "nat \<Rightarrow> nat" where
  "hex_digit d = (if d < 10 then 48 + d else 87 + d)"

definition repr_byte :: "nat \<Rightarrow> nat \<Rightarrow> pystr" where
  "repr_byte quote c =
     (if c = quote \<or> c = 92 then [92, c]
      else if c = 9 then [92, 116]
      else if c = 10 then [92, 110]
      else if c = 13 then [92, 114]
      else if c < 32 \<or> 127 \<le> c then [92, 120, hex_digit (c div 16), hex_digit (c mod 16)]
      else [c])"

definition bytes_repr :: "byte list \<Rightarrow> pystr" where
  "bytes_repr data =
     (let bs = map unat data;
          quote = (if 39 \<in> set bs \<and> 34 \<notin> set bs then 34 else 39)
      in [98, quote] @ concat (map (repr_byte quote) bs) @ [quote])"

definition str_bytes :: "byte list \<Rightarrow> exn + pystr" where
  "str_bytes data = Inr (bytes_repr data)"

text \<open>
  The optional libraries are not part of the repository. \<open>PyPDF2\<close> is \<open>None\<close> when the
  import failed; otherwise it gives, for the bytes of a file, the texts of the pages
  (\<open>None\<close> for a page whose \<open>extract_text()\<close> returns nothing) or raises. \<open>docx\<close>
  likewise gives the texts of the paragraphs or raises.
\<close>

record libraries =
  PyPDF2 :: "(byte list \<Rightarrow> exn + pystr option list) option"
  docx :: "(byte list \<Rightarrow> exn + pystr list) option"

fun join :: "pystr \<Rightarrow> pystr list \<Rightarrow> pystr" where
  "join sep [] = []"
| "join sep [x] = x"
| "join sep (x # y # ys) = x @ sep @ join sep (y # ys)"

definition endswith :: "pystr \<Rightarrow> pystr \<Rightarrow> bool" where
  "endswith s suf \<longleftrightarrow> length suf \<le> length s \<and> drop (length s - length suf) s = suf"

definition extract_text_from_pdf :: "libraries \<Rightarrow> byte list \<Rightarrow> exn + pystr" where
  "extract_text_from_pdf L file_bytes =
     (case PyPDF2 L of
        None \<Rightarrow> Inr []
      | Some reader \<Rightarrow>
          (case reader file_bytes of
             Inl e \<Rightarrow> Inr []
           | Inr pages \<Rightarrow>
               Inr (join [10] (map (\<lambda>t. case t of None \<Rightarrow> [] | Some s \<Rightarrow> s) pages))))"

definition extract_text_from_docx :: "libraries \<Rightarrow> byte list \<Rightarrow> exn + pystr" where
  "extract_text_from_docx L file_bytes =
     (case docx L of
        None \<Rightarrow> Inr []
      | Some reader \<Rightarrow>
          (case reader file_bytes of
             Inl e \<Rightarrow> Inr []
           | Inr paragraphs \<Rightarrow> Inr (join [10] paragraphs)))"

record uploaded_file =
  upload_name :: pystr
  upload_data :: "byte list"

text \<open>
  \<open>parse_uploaded_file\<close>. The calls of the two extractors stand outside any \<open>try\<close>, so
  an exception of theirs would pass through to the caller; the decoding and the final
  \<open>str(data)\<close> stand inside \<open>try\<close> blocks whose handlers set the text to the empty string.
\<close>

definition parse_uploaded_file :: "unicode \<Rightarrow> libraries \<Rightarrow> uploaded_file \<Rightarrow> exn + pystr" where
  "parse_uploaded_file U L f =
     (let nm = lower U (upload_name f);
          data = upload_data f;
          extracted =
            (if endswith nm (str ''.pdf'') then extract_text_from_pdf L data
             else if endswith nm (str ''.docx'') then extract_text_from_docx L data
             else
               (case decode_utf8 data of
                  Inr t \<Rightarrow> Inr t
                | Inl e \<Rightarrow> (case decode_latin1 data of Inr t \<Rightarrow> Inr t | Inl e' \<Rightarrow> Inr [])))
      in case extracted of
           Inl e \<Rightarrow> Inl e
         | Inr t \<Rightarrow>
             if t = [] then (case str_bytes data of Inr r \<Rightarrow> Inr r | Inl e \<Rightarrow> Inr [])
             else Inr t)"

section \<open>Indexing\<close>

text \<open>
  \<open>index_uploaded_files\<close> appends one document for every file to the documents of the
  session, which are passed in and returned. An exception of \<open>parse_uploaded_file\<close>
  would end the run of the script.
\<close>

fun index_uploaded_files ::
  "unicode \<Rightarrow> libraries \<Rightarrow> uploaded_file list \<Rightarrow> document list \<Rightarrow> exn + document list" where
  "index_uploaded_files U L [] session = Inr session"
| "index_uploaded_files U L (f # fs) session =
     (case parse_uploaded_file U L f of
        Inl e \<Rightarrow> Inl e
      | Inr parsed_text \<Rightarrow>
          index_uploaded_files U L fs
            (session @ [\<lparr>name = upload_name f, text_str = parsed_text,
                         chunks = chunk_text parsed_text 1200\<rparr>]))"

text \<open>
  The uploader widget's handler: a non-empty list of uploaded files resets the
  documents of the session and indexes the list; an empty one leaves them alone.
\<close>

definition file_uploader_handler ::
  "unicode \<Rightarrow> libraries \<Rightarrow> uploaded_file list \<Rightarrow> document list \<Rightarrow> exn + document list" where
  "file_uploader_handler U L uploaded session =
     (if uploaded \<noteq> [] then index_uploaded_files U L uploaded [] else Inr session)"

text \<open>A session: the documents start empty and every run of the script handles the
  uploader's current list.\<close>

fun run_uploads ::
  "unicode \<Rightarrow> libraries \<Rightarrow> uploaded_file list list \<Rightarrow> document list \<Rightarrow> exn + document list" where
  "run_uploads U L [] session = Inr session"
| "run_uploads U L (b # bs) session =
     (case file_uploader_handler U L b session of
        Inl e \<Rightarrow> Inl e
      | Inr session' \<Rightarrow> run_uploads U L bs session')"

text \<open>The preview of a document and the branch that reports a missing one.\<close>

definition preview :: "document \<Rightarrow> pystr" where
  "preview uf = take 3000 (text_str uf)"

definition preview_missing :: "document \<Rightarrow> bool" where
  "preview_missing uf \<longleftrightarrow> preview uf = []"

section \<open>Composing the answer\<close>

text \<open>
  \<open>re.sub(r"\w+", repl, text)\<close> inside \<open>highlight\<close>: every maximal run of word
  characters is replaced by \<open>repl\<close> of it, in backticks (code point 96) when its
  lowercase form is in \<open>qtokens\<close>; every other character is kept.
\<close>

definition repl :: "unicode \<Rightarrow> pystr set \<Rightarrow> pystr \<Rightarrow> pystr" where
  "repl U qtokens w = (if lower U w \<in> qtokens then [96] @ w @ [96] else w)"

function highlight :: "unicode \<Rightarrow> pystr set \<Rightarrow> pystr \<Rightarrow> pystr" where
  "highlight U qtokens [] = []"
| "highlight U qtokens (c # cs) =
     (if is_word U c
      then repl U qtokens (c # takeWhile (is_word U) cs)
             @ highlight U qtokens (dropWhile (is_word U) cs)
      else c # highlight U qtokens cs)"
  by pat_completeness auto
termination
  by (relation "measure (\<lambda>(U, q, s). length s)")
     (auto simp: le_imp_less_Suc length_dropWhile_le)

text \<open>\<open>str(n)\<close> for the score in the f-string.\<close>

function str_nat :: "nat \<Rightarrow> pystr" where
  "str_nat n = (if n < 10 then [48 + n] else str_nat (n div 10) @ [48 + n mod 10])"
  by pat_completeness auto
termination
  by (relation "measure id") auto

definition str_int :: "int \<Rightarrow> pystr" where
  "str_int i = (if i < 0 then 45 # str_nat (nat (- i)) else str_nat (nat i))"

definition snippet_of :: "match \<Rightarrow> pystr" where
  "snippet_of m =
     (if length (chunk m) > 1200 then take 1200 (chunk m) @ str ''...'' else chunk m)"

definition qtokens_of :: "unicode \<Rightarrow> pystr \<Rightarrow> pystr set" where
  "qtokens_of U query = set (findall_w U (lower U query))"

definition match_line :: "unicode \<Rightarrow> pystr \<Rightarrow> match \<Rightarrow> pystr" where
  "match_line U query m =
     str ''From '' @ file_name m @ str '' (score='' @ str_int (score m) @ str ''):'' @ [10]
       @ str ''> '' @ highlight U (qtokens_of U query) (snippet_of m)"

definition build_answer_from_matches :: "unicode \<Rightarrow> match list \<Rightarrow> pystr \<Rightarrow> pystr" where
  "build_answer_from_matches U matches query =
     (if matches = []
      then str ''I couldn'' @ [39] @ str ''t find any passages in the uploaded files that match your question. ''
           @ str ''Try a different question or upload more files.''
      else join [10, 10]
             ([str ''I searched your uploaded files and found these relevant passages:'']
              @ map (match_line U query) matches
              @ [[10] @ str ''If you'' @ [39] @ str ''d like, ask me to summarize these passages, ''
                   @ str ''or ask a follow-up that references a file name.'']))"

section \<open>Notions for the statements about retrieval\<close>

text \<open>
  The score as the specification words it: the sum, over the token list of the query
  with repeats kept, of the number of occurrences of the token in the token list of
  the chunk.
\<close>

definition keyword_overlap :: "unicode \<Rightarrow> pystr \<Rightarrow> pystr \<Rightarrow> int" where
  "keyword_overlap U query c =
     (\<Sum>t\<leftarrow>findall_w U (lower U query). int (count_list (findall_w U (lower U c)) t))"

definition tsum :: "unicode \<Rightarrow> pystr list \<Rightarrow> pystr \<Rightarrow> int" where
  \<comment> \<open>The same sum for a given token list.\<close>
  "tsum U tokens c = (\<Sum>t\<leftarrow>tokens. int (count_list (findall_w U (lower U c)) t))"

text \<open>
  The order of encounter: document by document, and within a document chunk by
  chunk, each chunk with the name of its file and its index.
\<close>

definition traversal :: "document list \<Rightarrow> (pystr \<times> nat \<times> pystr) list" where
  "traversal uploaded_files =
     concat (map (\<lambda>uf. map (\<lambda>(i, c). (name uf, i, c)) (enumerate 0 (chunks uf))) uploaded_files)"

text \<open>Two small documents for concrete runs.\<close>

definition cat_doc :: document where
  "cat_doc = \<lparr>name = str ''pets.txt'', text_str = str ''cat cat dog'', chunks = [str ''cat cat dog'']\<rparr>"

definition pets_doc :: document where
  "pets_doc = \<lparr>name = str ''notes.txt'', text_str = str ''a cat, a dog and a cat'',
     chunks = [str ''a cat'', str ''a dog'', str ''and a Cat'']\<rparr>"

section \<open>Notions for the statements about chunking\<close>

text \<open>The sequence of the non-whitespace characters of a string.\<close>

definition nonspace :: "pystr \<Rightarrow> pystr" where
  "nonspace s = filter (\<lambda>c. \<not> isspace c) s"

text \<open>A string that neither starts nor ends with whitespace.\<close>

definition clean :: "pystr \<Rightarrow> bool" where
  "clean s \<longleftrightarrow> s = [] \<or> (\<not> isspace (hd s) \<and> \<not> isspace (last s))"

text \<open>The non-whitespace content of a state of the loops: the chunks, then the buffer.\<close>

definition flat :: "pystr list \<times> pystr \<Rightarrow> pystr" where
  "flat st = nonspace (concat (fst st) @ snd st)"

text \<open>A chunk within the bound, or one of the pieces of the set \<open>A\<close>.\<close>

definition fits :: "int \<Rightarrow> pystr set \<Rightarrow> pystr \<Rightarrow> bool" where
  "fits m A c \<longleftrightarrow> int (length c) \<le> m \<or> c \<in> A"

section \<open>Notions for the statements about indexing\<close>

text \<open>The document \<open>uf\<close> is the one indexed from the uploaded file \<open>f\<close>.\<close>

definition indexed :: "unicode \<Rightarrow> libraries \<Rightarrow> uploaded_file \<Rightarrow> document \<Rightarrow> bool" where
  "indexed U L f uf \<longleftrightarrow>
     name uf = upload_name f \<and> parse_uploaded_file U L f = Inr (text_str uf)
     \<and> chunks uf = chunk_text (text_str uf) 1200"

text \<open>Two states of the optional libraries, a file and its document, for concrete runs.\<close>

definition no_libraries :: libraries where
  "no_libraries = \<lparr>PyPDF2 = None, docx = None\<rparr>"

definition failing_libraries :: libraries where
  "failing_libraries = \<lparr>PyPDF2 = Some (\<lambda>d. Inl LibraryError), docx = Some (\<lambda>d. Inl LibraryError)\<rparr>"

definition hi_file :: uploaded_file where
  "hi_file = \<lparr>upload_name = str ''a.txt'', upload_data = [0x68, 0x69]\<rparr>"

definition hi_doc :: document where
  "hi_doc = \<lparr>name = str ''a.txt'', text_str = str ''hi'', chunks = [str ''hi'']\<rparr>"

chapter \<open>Properties\<close>

section \<open>Retrieval: scores, order and length\<close>

lemma scan_chunks_Nil [simp]: "scan_chunks U tokens f i [] = []"
  by (simp add: scan_chunks_def)

lemma scan_chunks_Cons [simp]:
  "scan_chunks U tokens f i (c # cs) =
     (let words = findall_w U (lower U c) in
      if words = [] then scan_chunks U tokens f (i + 1) cs
      else
        let sc = sum_list (map (\<lambda>t. int (count_list words t)) tokens) in
        if sc > 0
        then \<lparr>file_name = f, chunk = c, score = sc, index = i\<rparr> # scan_chunks U tokens f (i + 1) cs
        else scan_chunks U tokens f (i + 1) cs)"
  by (simp add: scan_chunks_def Let_def split: prod.split)

lemma scan_files_Nil [simp]: "scan_files U tokens [] = []"
  by (simp add: scan_files_def)

lemma scan_files_Cons [simp]:
  "scan_files U tokens (uf # ufs) =
     scan_chunks U tokens (name uf) 0 (chunks uf) @ scan_files U tokens ufs"
  by (simp add: scan_files_def scan_chunks_def split: prod.split)

lemma scan_chunks_visits: "snd (scan_chunks_traced U tokens f i cs) = cs"
proof (induction cs arbitrary: i)
  case Nil
  then show ?case by simp
next
  case (Cons c cs)
  obtain results visited where r: "scan_chunks_traced U tokens f (i + 1) cs = (results, visited)"
    by (cases "scan_chunks_traced U tokens f (i + 1) cs")
  with Cons.IH[of "i + 1"] have "visited = cs" by simp
  with r show ?case by (simp add: Let_def)
qed

lemma scan_files_visits: "snd (scan_files_traced U tokens ufs) = concat (map chunks ufs)"
proof (induction ufs)
  case Nil
  then show ?case by simp
next
  case (Cons uf ufs)
  have "snd (scan_files_traced U tokens (uf # ufs))
      = snd (scan_chunks_traced U tokens (name uf) 0 (chunks uf)) @ snd (scan_files_traced U tokens ufs)"
    by (simp split: prod.split)
  then show ?case
    by (simp only: scan_chunks_visits Cons.IH) simp
qed

lemma simple_retrieve_unfold:
  "simple_retrieve U uploaded_files query top_k =
     (let tokens = findall_w U (lower U query) in
      if tokens = [] then []
      else slice_to top_k (sort_reverse score (scan_files U tokens uploaded_files)))"
  by (simp add: simple_retrieve_def simple_retrieve_traced_def scan_files_def Let_def
      split: prod.split)

lemma scanned_chunks_unfold:
  "scanned_chunks U uploaded_files query top_k =
     (if findall_w U (lower U query) = [] then [] else concat (map chunks uploaded_files))"
proof -
  have "snd (case scan_files_traced U tokens uploaded_files of
              (results, visited) \<Rightarrow> (slice_to top_k (sort_reverse score results), visited))
      = snd (scan_files_traced U tokens uploaded_files)" for tokens
    by (simp split: prod.split)
  then show ?thesis
    by (simp add: scanned_chunks_def simple_retrieve_traced_def Let_def scan_files_visits)
qed

lemma scan_chunks_trace:
  "map (\<lambda>m. ((file_name m, index m, chunk m), score m)) (scan_chunks U tokens f i cs) =
   map (\<lambda>t. (t, tsum U tokens (snd (snd t))))
     (filter (\<lambda>t. 0 < tsum U tokens (snd (snd t))) (map (\<lambda>(j, c). (f, j, c)) (enumerate i cs)))"
  by (induction cs arbitrary: i) (auto simp: Let_def tsum_def)

lemma scan_files_trace:
  "map (\<lambda>m. ((file_name m, index m, chunk m), score m)) (scan_files U tokens ufs) =
   map (\<lambda>t. (t, tsum U tokens (snd (snd t))))
     (filter (\<lambda>t. 0 < tsum U tokens (snd (snd t))) (traversal ufs))"
  by (induction ufs) (auto simp: scan_chunks_trace traversal_def)

lemma traversal_chunks: "map (\<lambda>t. snd (snd t)) (traversal ufs) = concat (map chunks ufs)"
proof -
  have "map (\<lambda>t. snd (snd t)) (map (\<lambda>(j, c). (f, j, c)) (enumerate i cs)) = cs"
    for f i and cs :: "pystr list"
    by (induction cs arbitrary: i) auto
  then show ?thesis
    by (induction ufs) (auto simp: traversal_def)
qed

lemma scan_files_member:
  assumes "m \<in> set (scan_files U tokens ufs)"
  shows "score m = tsum U tokens (chunk m) \<and> 0 < score m
    \<and> (file_name m, index m, chunk m) \<in> set (traversal ufs)"
proof -
  from assms have "((file_name m, index m, chunk m), score m)
      \<in> set (map (\<lambda>m. ((file_name m, index m, chunk m), score m)) (scan_files U tokens ufs))"
    by force
  then show ?thesis unfolding scan_files_trace by auto
qed

lemma map_filter_proj:
  "map h (filter (\<lambda>t. P (h t)) xs) = filter P (map h xs)"
  by (induction xs) auto

lemma scan_files_chunks:
  "map chunk (scan_files U tokens ufs) = filter (\<lambda>c. 0 < tsum U tokens c) (concat (map chunks ufs))"
proof -
  have "map chunk (scan_files U tokens ufs)
      = map (\<lambda>p. snd (snd (fst p)))
          (map (\<lambda>m. ((file_name m, index m, chunk m), score m)) (scan_files U tokens ufs))"
    by simp
  also have "\<dots> = map (\<lambda>t. snd (snd t)) (filter (\<lambda>t. 0 < tsum U tokens (snd (snd t))) (traversal ufs))"
    unfolding scan_files_trace by (simp add: comp_def)
  also have "\<dots> = filter (\<lambda>c. 0 < tsum U tokens c) (map (\<lambda>t. snd (snd t)) (traversal ufs))"
    by (rule map_filter_proj)
  finally show ?thesis by (simp add: traversal_chunks)
qed

lemma keyed_filter:
  "map fst (filter (\<lambda>p. snd p = s) (map (\<lambda>t. (t, g t)) (filter (\<lambda>t. 0 < g t) xs)))
   = filter (\<lambda>t. g t = s \<and> (0::int) < s) xs"
  by (induction xs) auto

lemma scan_files_keys:
  "map (\<lambda>m. (file_name m, index m, chunk m)) (filter (\<lambda>m. score m = s) (scan_files U tokens ufs))
   = filter (\<lambda>t. tsum U tokens (snd (snd t)) = s \<and> 0 < s) (traversal ufs)"
proof -
  let ?k = "\<lambda>m. ((file_name m, index m, chunk m), score m)"
  have "map (\<lambda>m. (file_name m, index m, chunk m)) (filter (\<lambda>m. score m = s) (scan_files U tokens ufs))
      = map fst (filter (\<lambda>p. snd p = s) (map ?k (scan_files U tokens ufs)))"
    by (simp add: filter_map comp_def)
  also have "\<dots> = filter (\<lambda>t. tsum U tokens (snd (snd t)) = s \<and> 0 < s) (traversal ufs)"
    unfolding scan_files_trace by (rule keyed_filter)
  finally show ?thesis .
qed

lemma set_slice_to: "set (slice_to k xs) \<subseteq> set xs"
  by (auto simp: slice_to_def dest: in_set_takeD)

lemma slice_to_prefix: "prefix (slice_to k xs) xs"
  by (simp add: slice_to_def take_is_prefix)

lemma slice_to_all: "int (length xs) \<le> k \<Longrightarrow> slice_to k xs = xs"
  by (auto simp: slice_to_def)

lemma length_slice_to: "0 \<le> k \<Longrightarrow> length (slice_to k xs) = min (nat k) (length xs)"
  by (auto simp: slice_to_def)

lemma sorted_sort_reverse: "sorted_wrt (\<lambda>a b. key b \<le> key a) (sort_reverse key xs)"
proof -
  have "sorted (map (\<lambda>x. - key x) (sort_reverse key xs))"
    by (simp add: sort_reverse_def)
  then show ?thesis
    by (simp add: sorted_map sorted_wrt_iff_nth_less)
qed

lemma sorted_wrt_slice_to: "sorted_wrt R xs \<Longrightarrow> sorted_wrt R (slice_to k xs)"
  by (simp add: slice_to_def)

lemma filter_sort_reverse:
  "filter (\<lambda>x. key x = s) (sort_reverse key xs) = filter (\<lambda>x. key x = s) xs"
  using sort_key_stable[of "\<lambda>x. - key x" "- s" xs] by (simp add: sort_reverse_def)

lemma prefix_filter: "prefix xs ys \<Longrightarrow> prefix (filter P xs) (filter P ys)"
  by (auto simp: prefix_def)

lemma prefix_map_f: "prefix xs ys \<Longrightarrow> prefix (map f xs) (map f ys)"
  by (auto simp: prefix_def)

lemma findall_w_empty: "findall_w U s = [] \<longleftrightarrow> (\<forall>c\<in>set s. \<not> is_word U c)"
  by (induction U s rule: findall_w.induct) auto


lemma keyword_overlap_tsum: "keyword_overlap U query c = tsum U (findall_w U (lower U query)) c"
  by (simp add: keyword_overlap_def tsum_def)

lemma retrieve_subset:
  "set (simple_retrieve U ufs q k) \<subseteq> set (scan_files U (findall_w U (lower U q)) ufs)"
  using set_slice_to[of k "sort_reverse score (scan_files U (findall_w U (lower U q)) ufs)"]
  by (auto simp: simple_retrieve_unfold Let_def sort_reverse_def)

lemma retrieve_member:
  assumes "m \<in> set (simple_retrieve U ufs q k)"
  shows "score m = keyword_overlap U q (chunk m) \<and> 0 < score m
     \<and> chunk m \<in> set (concat (map chunks ufs))"
proof -
  from assms retrieve_subset have m: "m \<in> set (scan_files U (findall_w U (lower U q)) ufs)"
    by blast
  from scan_files_member[OF m]
  have s: "score m = keyword_overlap U q (chunk m)" "0 < score m"
    and t: "(file_name m, index m, chunk m) \<in> set (traversal ufs)"
    by (simp_all add: keyword_overlap_tsum)
  from t have "chunk m \<in> set (map (\<lambda>t. snd (snd t)) (traversal ufs))"
    by force
  then have "chunk m \<in> set (concat (map chunks ufs))"
    unfolding traversal_chunks by simp
  with s show ?thesis by simp
qed

lemma retrieve_all:
  assumes "0 < keyword_overlap U q c" and "c \<in> set (concat (map chunks ufs))"
  shows "\<exists>m\<in>set (simple_retrieve U ufs q (int (length (concat (map chunks ufs))))).
           chunk m = c \<and> score m = keyword_overlap U q c"
proof -
  let ?tokens = "findall_w U (lower U q)"
  let ?all = "scan_files U ?tokens ufs"
  from assms(1) have ne: "?tokens \<noteq> []"
    by (auto simp: keyword_overlap_def)
  have "length (map chunk ?all) \<le> length (concat (map chunks ufs))"
    unfolding scan_files_chunks by (rule length_filter_le)
  then have "int (length (sort_reverse score ?all)) \<le> int (length (concat (map chunks ufs)))"
    by (simp add: sort_reverse_def)
  then have eq: "simple_retrieve U ufs q (int (length (concat (map chunks ufs)))) = sort_reverse score ?all"
    using ne by (simp add: simple_retrieve_unfold slice_to_all)
  from assms have "c \<in> set (filter (\<lambda>c. 0 < tsum U ?tokens c) (concat (map chunks ufs)))"
    by (simp add: keyword_overlap_tsum)
  then have "c \<in> set (map chunk ?all)"
    by (simp only: scan_files_chunks)
  then obtain m where m: "m \<in> set ?all" "chunk m = c"
    by auto
  from scan_files_member[OF m(1)] m(2) have "score m = keyword_overlap U q c"
    by (simp add: keyword_overlap_tsum)
  with m eq show ?thesis
    by (auto simp: sort_reverse_def)
qed

lemmas ascii_simps = str_def ascii_def ascii_lower_char_def ascii_isalnum_def is_word_def

lemma retrieve_cat: "simple_retrieve ascii [cat_doc] (str ''cat'') 3 =
   [\<lparr>file_name = str ''pets.txt'', chunk = str ''cat cat dog'', score = 2, index = 0\<rparr>]"
  by (simp add: simple_retrieve_unfold cat_doc_def ascii_simps slice_to_def sort_reverse_def)

lemma retrieve_cat_cat: "simple_retrieve ascii [cat_doc] (str ''cat cat'') 3 =
   [\<lparr>file_name = str ''pets.txt'', chunk = str ''cat cat dog'', score = 4, index = 0\<rparr>]"
  by (simp add: simple_retrieve_unfold cat_doc_def ascii_simps slice_to_def sort_reverse_def)

text \<open>
  Claim C1. Every match that the retriever returns carries as its score the sum, over
  the query's tokens with repeats kept, of the occurrences of the token among the
  tokens of the match's chunk, and the chunk is one of the corpus; asked for as many
  results as the corpus has chunks, the retriever returns every chunk of positive sum
  with that score. For the chunk "cat cat dog" the query "cat" scores 2 and the query
  "cat cat" scores 4.
\<close>

theorem retrieve_score_is_keyword_overlap:
  "(\<forall>m\<in>set (simple_retrieve U uploaded_files query top_k).
      score m = keyword_overlap U query (chunk m) \<and> chunk m \<in> set (concat (map chunks uploaded_files)))
   \<and> (\<forall>c\<in>set (concat (map chunks uploaded_files)). 0 < keyword_overlap U query c \<longrightarrow>
        (\<exists>m\<in>set (simple_retrieve U uploaded_files query (int (length (concat (map chunks uploaded_files))))).
           chunk m = c \<and> score m = keyword_overlap U query c))
   \<and> map score (simple_retrieve ascii [cat_doc] (str ''cat'') 3) = [2]
   \<and> map score (simple_retrieve ascii [cat_doc] (str ''cat cat'') 3) = [4]"
proof (intro conjI ballI impI)
  fix m assume "m \<in> set (simple_retrieve U uploaded_files query top_k)"
  from retrieve_member[OF this]
  show "score m = keyword_overlap U query (chunk m)"
    and "chunk m \<in> set (concat (map chunks uploaded_files))" by simp_all
next
  fix c assume "c \<in> set (concat (map chunks uploaded_files))" "0 < keyword_overlap U query c"
  then show "\<exists>m\<in>set (simple_retrieve U uploaded_files query (int (length (concat (map chunks uploaded_files))))).
           chunk m = c \<and> score m = keyword_overlap U query c"
    using retrieve_all by blast
next
  show "map score (simple_retrieve ascii [cat_doc] (str ''cat'') 3) = [2]"
    by (simp add: retrieve_cat)
  show "map score (simple_retrieve ascii [cat_doc] (str ''cat cat'') 3) = [4]"
    by (simp add: retrieve_cat_cat)
qed

theorem retrieve_score_is_keyword_overlap_witness:
  "\<lparr>file_name = str ''notes.txt'', chunk = str ''and a Cat'', score = 2, index = 2\<rparr>
     \<in> set (simple_retrieve ascii [cat_doc, pets_doc] (str ''a cat'') 5)
   \<and> keyword_overlap ascii (str ''a cat'') (str ''and a Cat'') = 2"
proof -
  let ?m = "\<lparr>file_name = str ''notes.txt'', chunk = str ''and a Cat'', score = 2, index = 2\<rparr>"
  have r: "?m \<in> set (simple_retrieve ascii [cat_doc, pets_doc] (str ''a cat'') 5)"
    by (simp add: simple_retrieve_unfold cat_doc_def pets_doc_def ascii_simps slice_to_def sort_reverse_def)
  with retrieve_score_is_keyword_overlap[of ascii "[cat_doc, pets_doc]" "str ''a cat''" 5]
  have "score ?m = keyword_overlap ascii (str ''a cat'') (chunk ?m)"
    by blast
  with r show ?thesis by simp
qed

lemma retrieve_prefix:
  "prefix (simple_retrieve U ufs q k) (sort_reverse score (scan_files U (findall_w U (lower U q)) ufs))"
  by (simp add: simple_retrieve_unfold Let_def slice_to_prefix)

lemma retrieve_sorted:
  "sorted_wrt (\<lambda>a b. score b \<le> score a) (simple_retrieve U ufs q k)"
  by (simp add: simple_retrieve_unfold Let_def sorted_wrt_slice_to sorted_sort_reverse)

lemma retrieve_ties:
  "prefix (map (\<lambda>m. (file_name m, index m, chunk m))
             (filter (\<lambda>m. score m = s) (simple_retrieve U ufs q k)))
          (filter (\<lambda>t. keyword_overlap U q (snd (snd t)) = s) (traversal ufs))"
proof (cases "0 < s")
  case True
  let ?all = "scan_files U (findall_w U (lower U q)) ufs"
  have "prefix (filter (\<lambda>m. score m = s) (simple_retrieve U ufs q k))
          (filter (\<lambda>m. score m = s) (sort_reverse score ?all))"
    by (rule prefix_filter[OF retrieve_prefix])
  then have "prefix (filter (\<lambda>m. score m = s) (simple_retrieve U ufs q k))
          (filter (\<lambda>m. score m = s) ?all)"
    by (simp only: filter_sort_reverse)
  then have "prefix (map (\<lambda>m. (file_name m, index m, chunk m))
             (filter (\<lambda>m. score m = s) (simple_retrieve U ufs q k)))
          (map (\<lambda>m. (file_name m, index m, chunk m)) (filter (\<lambda>m. score m = s) ?all))"
    by (rule prefix_map_f)
  then show ?thesis
    using True by (simp add: scan_files_keys keyword_overlap_tsum)
next
  case False
  have "score m \<noteq> s" if "m \<in> set (simple_retrieve U ufs q k)" for m
    using retrieve_member[OF that] False by simp
  then have "filter (\<lambda>m. score m = s) (simple_retrieve U ufs q k) = []"
    by (simp add: filter_empty_conv)
  then show ?thesis by simp
qed

text \<open>
  Claim C4. The matches returned are in non-increasing order of score, and for every
  score the matches of that score, in the order returned, are an initial part of the
  chunks of that keyword overlap in the order of encounter (document by document,
  chunk by chunk): ties keep the order of encounter, and no other key is used.
\<close>

theorem retrieve_sorted_stable:
  "sorted_wrt (\<lambda>a b. score b \<le> score a) (simple_retrieve U uploaded_files query top_k)
   \<and> (\<forall>s. prefix
          (map (\<lambda>m. (file_name m, index m, chunk m))
             (filter (\<lambda>m. score m = s) (simple_retrieve U uploaded_files query top_k)))
          (filter (\<lambda>t. keyword_overlap U query (snd (snd t)) = s) (traversal uploaded_files)))"
  using retrieve_sorted retrieve_ties by blast

theorem retrieve_sorted_stable_witness:
  "map (\<lambda>m. (index m, score m)) (simple_retrieve ascii [cat_doc, pets_doc] (str ''a cat'') 3)
     = [(0, 2), (0, 2), (2, 2)]
   \<and> prefix
        (map (\<lambda>m. (file_name m, index m, chunk m))
           (filter (\<lambda>m. score m = 2) (simple_retrieve ascii [cat_doc, pets_doc] (str ''a cat'') 3)))
        (filter (\<lambda>t. keyword_overlap ascii (str ''a cat'') (snd (snd t)) = 2)
           (traversal [cat_doc, pets_doc]))"
proof -
  have "map (\<lambda>m. (index m, score m)) (simple_retrieve ascii [cat_doc, pets_doc] (str ''a cat'') 3)
     = [(0, 2), (0, 2), (2, 2)]"
    by (simp add: simple_retrieve_unfold cat_doc_def pets_doc_def ascii_simps slice_to_def sort_reverse_def)
  then show ?thesis
    using retrieve_sorted_stable[of ascii "[cat_doc, pets_doc]" "str ''a cat''" 3] by blast
qed

lemma retrieve_length:
  assumes "0 \<le> k"
  shows "length (simple_retrieve U ufs q k)
     = min (nat k) (length (filter (\<lambda>c. 0 < keyword_overlap U q c) (concat (map chunks ufs))))"
proof (cases "findall_w U (lower U q) = []")
  case True
  then have "keyword_overlap U q c = 0" for c
    by (simp add: keyword_overlap_def)
  with True show ?thesis
    by (simp add: simple_retrieve_unfold)
next
  case False
  let ?all = "scan_files U (findall_w U (lower U q)) ufs"
  have "length ?all = length (map chunk ?all)" by simp
  also have "\<dots> = length (filter (\<lambda>c. 0 < keyword_overlap U q c) (concat (map chunks ufs)))"
    by (simp only: scan_files_chunks keyword_overlap_tsum)
  finally show ?thesis
    using False assms by (simp add: simple_retrieve_unfold length_slice_to sort_reverse_def)
qed

text \<open>
  Claim C5, amended. For a bound \<open>top_k\<close> that is not negative, the length of the result
  is the minimum of \<open>top_k\<close> and the number of chunks of the corpus whose keyword
  overlap with the query is positive; it is at most \<open>top_k\<close>, and no chunk of overlap
  zero is returned.
\<close>

theorem retrieve_length_top_k:
  assumes "0 \<le> top_k"
  shows "length (simple_retrieve U uploaded_files query top_k)
           = min (nat top_k)
               (length (filter (\<lambda>c. 0 < keyword_overlap U query c) (concat (map chunks uploaded_files))))
         \<and> int (length (simple_retrieve U uploaded_files query top_k)) \<le> top_k
         \<and> (\<forall>m\<in>set (simple_retrieve U uploaded_files query top_k).
               0 < keyword_overlap U query (chunk m))"
proof (intro conjI ballI)
  show len: "length (simple_retrieve U uploaded_files query top_k)
           = min (nat top_k)
               (length (filter (\<lambda>c. 0 < keyword_overlap U query c) (concat (map chunks uploaded_files))))"
    by (rule retrieve_length[OF assms])
  show "int (length (simple_retrieve U uploaded_files query top_k)) \<le> top_k"
    using assms unfolding len by simp
  fix m assume "m \<in> set (simple_retrieve U uploaded_files query top_k)"
  from retrieve_member[OF this] show "0 < keyword_overlap U query (chunk m)"
    by simp
qed

theorem retrieve_length_top_k_witness:
  "(0::int) \<le> 2 \<and> length (simple_retrieve ascii [cat_doc, pets_doc] (str ''a cat'') 2) = 2
   \<and> length (filter (\<lambda>c. 0 < keyword_overlap ascii (str ''a cat'') c)
        (concat (map chunks [cat_doc, pets_doc]))) = 4"
proof -
  have h: "(0::int) \<le> 2" by simp
  have n: "length (filter (\<lambda>c. 0 < keyword_overlap ascii (str ''a cat'') c)
        (concat (map chunks [cat_doc, pets_doc]))) = 4"
    by (simp add: keyword_overlap_def cat_doc_def pets_doc_def ascii_simps)
  from retrieve_length_top_k[OF h, of ascii "[cat_doc, pets_doc]" "str ''a cat''"] n
  show ?thesis by simp
qed

text \<open>
  Claim C5 as stated fails for a negative bound: the slice \<open>results[:-1]\<close> drops the
  last of the four positive matches and returns the other three.
\<close>

theorem retrieve_negative_top_k_counterexample:
  "length (simple_retrieve ascii [cat_doc, pets_doc] (str ''a cat'') (- 1)) = 3
   \<and> \<not> int (length (simple_retrieve ascii [cat_doc, pets_doc] (str ''a cat'') (- 1))) \<le> - 1
   \<and> int (length (simple_retrieve ascii [cat_doc, pets_doc] (str ''a cat'') (- 1)))
       \<noteq> min (- 1) (int (length (filter (\<lambda>c. 0 < keyword_overlap ascii (str ''a cat'') c)
        (concat (map chunks [cat_doc, pets_doc])))))"
  by (simp add: simple_retrieve_unfold cat_doc_def pets_doc_def ascii_simps slice_to_def sort_reverse_def)

lemma ascii_lower_keeps_nonword:
  "\<forall>s. (\<forall>c\<in>set s. \<not> is_word ascii c) \<longrightarrow> (\<forall>c\<in>set (lower ascii s). \<not> is_word ascii c)"
  by (auto simp: ascii_def is_word_def ascii_lower_char_def ascii_isalnum_def)

text \<open>
  Claim C8. When lowercasing does not turn a string without word characters into one
  with word characters, a query without word characters is answered by the empty list
  at the guard, before any loop runs: the run of \<open>simple_retrieve\<close> returns no match and
  has visited no chunk of the corpus. (For a query that has a token the same run visits
  every chunk of every document.)
\<close>

theorem retrieve_no_word_characters:
  assumes "\<forall>s. (\<forall>c\<in>set s. \<not> is_word U c) \<longrightarrow> (\<forall>c\<in>set (lower U s). \<not> is_word U c)"
    and "\<forall>c\<in>set query. \<not> is_word U c"
  shows "simple_retrieve_traced U uploaded_files query top_k = ([], [])
    \<and> simple_retrieve U uploaded_files query top_k = []
    \<and> scanned_chunks U uploaded_files query top_k = []
    \<and> (findall_w U (lower U query') \<noteq> [] \<longrightarrow>
          snd (simple_retrieve_traced U uploaded_files query' top_k)
            = concat (map chunks uploaded_files))"
proof -
  from assms have "\<forall>c\<in>set (lower U query). \<not> is_word U c" by blast
  then have "findall_w U (lower U query) = []"
    by (simp add: findall_w_empty)
  then have "simple_retrieve_traced U uploaded_files query top_k = ([], [])"
    by (simp add: simple_retrieve_traced_def)
  moreover have "findall_w U (lower U query') \<noteq> [] \<longrightarrow>
          snd (simple_retrieve_traced U uploaded_files query' top_k)
            = concat (map chunks uploaded_files)"
    using scanned_chunks_unfold[of U uploaded_files query' top_k]
    by (simp add: scanned_chunks_def)
  ultimately show ?thesis
    by (simp add: simple_retrieve_def scanned_chunks_def)
qed

theorem retrieve_no_word_characters_witness:
  "simple_retrieve ascii [cat_doc, pets_doc] (str ''   '') 5 = []
   \<and> scanned_chunks ascii [cat_doc, pets_doc] (str ''   '') 5 = []
   \<and> simple_retrieve ascii [cat_doc, pets_doc] (str '''') 5 = []
   \<and> scanned_chunks ascii [cat_doc, pets_doc] (str ''cat'') 5 \<noteq> []"
proof -
  have a: "\<forall>c\<in>set (str ''   ''). \<not> is_word ascii c"
    by (simp add: ascii_simps)
  have b: "\<forall>c\<in>set (str ''''). \<not> is_word ascii c"
    by (simp add: ascii_simps)
  have c: "scanned_chunks ascii [cat_doc, pets_doc] (str ''cat'') 5 \<noteq> []"
    by (simp add: scanned_chunks_unfold cat_doc_def pets_doc_def ascii_simps)
  from retrieve_no_word_characters[OF ascii_lower_keeps_nonword a]
    retrieve_no_word_characters[OF ascii_lower_keeps_nonword b] c
  show ?thesis by simp
qed

section \<open>Chunking: content and length\<close>

lemma nonspace_append: "nonspace (xs @ ys) = nonspace xs @ nonspace ys"
  by (simp add: nonspace_def)

lemma nonspace_Nil: "nonspace [] = []"
  by (simp add: nonspace_def)

lemma nonspace_Cons: "nonspace (c # cs) = (if isspace c then nonspace cs else c # nonspace cs)"
  by (simp add: nonspace_def)

lemma nonspace_dropWhile: "nonspace (dropWhile isspace xs) = nonspace xs"
  by (induction xs) (auto simp: nonspace_def)

lemma nonspace_rev: "nonspace (rev xs) = rev (nonspace xs)"
  by (simp add: nonspace_def rev_filter)

lemma nonspace_strip: "nonspace (strip s) = nonspace s"
  by (simp add: strip_def nonspace_rev nonspace_dropWhile)

lemma length_strip: "length (strip s) \<le> length s"
  unfolding strip_def
  by (metis length_dropWhile_le length_rev order_trans)

lemma last_dropWhile: "dropWhile P xs \<noteq> [] \<Longrightarrow> last (dropWhile P xs) = last xs"
  by (induction xs) (auto split: if_splits)

lemma strip_clean: "clean s \<Longrightarrow> strip s = s"
proof (cases "s = []")
  case True
  then show ?thesis by (simp add: strip_def)
next
  case False
  assume "clean s"
  with False have h: "\<not> isspace (hd s)" and l: "\<not> isspace (last s)"
    by (simp_all add: clean_def)
  from h False have "dropWhile isspace s = s"
    by (cases s) auto
  moreover from l False have "dropWhile isspace (rev s) = rev s"
    by (cases "rev s") (auto simp: hd_rev[symmetric] simp del: hd_rev)
  ultimately show ?thesis by (simp add: strip_def)
qed

lemma clean_strip: "clean (strip s)"
proof (cases "strip s = []")
  case True
  then show ?thesis by (simp add: clean_def)
next
  case False
  let ?d = "dropWhile isspace s"
  let ?e = "dropWhile isspace (rev ?d)"
  from False have e: "?e \<noteq> []" by (simp add: strip_def)
  then have d: "?d \<noteq> []"
    by (metis dropWhile.simps(1) rev.simps(1))
  have "last (strip s) = hd ?e"
    using e by (simp add: strip_def last_rev)
  moreover have "\<not> isspace (hd ?e)"
    using e by (rule hd_dropWhile)
  moreover have "hd (strip s) = last ?e"
    using e by (simp add: strip_def hd_rev)
  moreover have "last ?e = last (rev ?d)"
    using e by (rule last_dropWhile)
  moreover have "last (rev ?d) = hd ?d"
    using d by (simp add: last_rev)
  moreover have "\<not> isspace (hd ?d)"
    using d by (rule hd_dropWhile)
  ultimately show ?thesis by (simp add: clean_def)
qed

lemma isspace_newline: "isspace 10" and isspace_blank: "isspace 32"
  by (simp_all add: isspace_def)

lemma terminator_not_space: "is_terminator c \<Longrightarrow> \<not> isspace c"
  by (auto simp: is_terminator_def isspace_def)

lemma nonspace_drop_newlines: "nonspace (dropWhile (\<lambda>x. x = 10) cs) = nonspace cs"
  by (induction cs) (auto simp: nonspace_Cons isspace_newline)

lemma nonspace_split_newlines_from:
  "nonspace (concat (split_newlines_from acc s)) = nonspace (acc @ s)"
  by (induction acc s rule: split_newlines_from.induct)
     (auto simp: nonspace_append nonspace_drop_newlines nonspace_Cons nonspace_Nil isspace_newline)

lemma nonspace_split_sentences_from:
  "nonspace (concat (split_sentences_from acc s)) = nonspace (acc @ s)"
  by (induction acc s rule: split_sentences_from.induct)
     (auto simp: nonspace_append nonspace_dropWhile nonspace_Nil nonspace_Cons)

lemma clean_split_sentences_from:
  "clean (acc @ s) \<Longrightarrow> \<forall>x\<in>set (split_sentences_from acc s). clean x"
proof (induction acc s rule: split_sentences_from.induct)
  case (1 acc)
  then show ?case by simp
next
  case (2 acc c cs)
  show ?case
  proof (cases "is_terminator c \<and> cs \<noteq> [] \<and> isspace (hd cs)")
    case True
    from "2.prems" have h: "\<not> isspace (hd (acc @ [c]))"
      by (cases acc) (auto simp: clean_def)
    from True have "\<not> isspace c" by (simp add: terminator_not_space)
    with h have piece: "clean (acc @ [c])" by (simp add: clean_def)
    have "clean (dropWhile isspace cs)"
    proof (cases "dropWhile isspace cs = []")
      case True
      then show ?thesis by (simp add: clean_def)
    next
      case False
      then have "\<not> isspace (hd (dropWhile isspace cs))" by (rule hd_dropWhile)
      moreover have "last (dropWhile isspace cs) = last cs"
        using False by (rule last_dropWhile)
      moreover from "2.prems" True have "\<not> isspace (last cs)"
        by (simp add: clean_def)
      ultimately show ?thesis by (simp add: clean_def)
    qed
    then have "\<forall>x\<in>set (split_sentences_from [] (dropWhile isspace cs)). clean x"
      using "2.IH"(1) True by simp
    with piece True show ?thesis by simp
  next
    case False
    from "2.prems" have "clean ((acc @ [c]) @ cs)" by simp
    with "2.IH"(2) False have "\<forall>x\<in>set (split_sentences_from (acc @ [c]) cs). clean x"
      by blast
    with False show ?thesis by auto
  qed
qed

lemma clean_split_sentences: "\<forall>x\<in>set (split_sentences (strip p)). strip x = x"
  using clean_split_sentences_from[of "[]" "strip p"] clean_strip[of p]
  by (simp add: split_sentences_def strip_clean)


lemma flat_flush:
  "flat ((if buf \<noteq> [] then chs @ [strip buf] else chs), []) = flat (chs, buf)"
  by (simp add: flat_def nonspace_append nonspace_strip nonspace_Nil)

lemma flat_pair: "flat (chs, buf) = nonspace (concat chs) @ nonspace buf"
  by (simp add: flat_def nonspace_append)

lemma sentence_loop_flat:
  "flat (sentence_loop m ss st) = flat st @ nonspace (concat ss)"
proof (induction ss arbitrary: st)
  case Nil
  then show ?case by (simp add: nonspace_Nil)
next
  case (Cons s ss)
  obtain chs buf where st: "st = (chs, buf)" by (cases st)
  define st' where "st' =
    (if int (length buf) + int (length s) + 1 > m
     then ((if buf \<noteq> [] then chs @ [strip buf] else chs), s)
     else (chs, (if buf \<noteq> [] then buf @ [32] @ s else s)))"
  have step: "sentence_loop m (s # ss) st = sentence_loop m ss st'"
    by (simp add: st st'_def)
  have "flat st' = flat st @ nonspace s"
    by (simp add: st st'_def flat_pair nonspace_append nonspace_strip nonspace_Nil nonspace_Cons
        isspace_blank)
  then show ?case
    by (simp only: step Cons.IH) (simp add: nonspace_append)
qed

lemma paragraph_loop_flat:
  "flat (paragraph_loop m ps st) = flat st @ nonspace (concat ps)"
proof (induction ps arbitrary: st)
  case Nil
  then show ?case by (simp add: nonspace_Nil)
next
  case (Cons p0 ps)
  obtain chs current where st: "st = (chs, current)" by (cases st)
  define p where "p = strip p0"
  define chs1 where "chs1 = (if current \<noteq> [] then chs @ [strip current] else chs)"
  define sl where "sl = sentence_loop m (split_sentences p) (chs1, [])"
  define st' where "st' =
    (if p = [] then (chs, current)
     else if int (length current) + int (length p) + 1 > m
     then (if int (length p) > m
           then ((if snd sl \<noteq> [] then fst sl @ [strip (snd sl)] else fst sl), [])
           else (chs1, p))
     else (chs, (if current \<noteq> [] then current @ [10] @ p else p)))"
  have step: "paragraph_loop m (p0 # ps) st = paragraph_loop m ps st'"
    by (simp add: st st'_def p_def chs1_def sl_def Let_def split: prod.split)
  have pp: "nonspace p = nonspace p0"
    unfolding p_def by (rule nonspace_strip)
  have c1: "nonspace (concat chs1) = nonspace (concat chs) @ nonspace current"
    by (simp add: chs1_def nonspace_append nonspace_strip nonspace_Nil)
  have "flat sl = flat (chs1, []) @ nonspace (concat (split_sentences p))"
    unfolding sl_def by (rule sentence_loop_flat)
  then have sl_flat: "flat sl = nonspace (concat chs) @ nonspace current @ nonspace p0"
    by (simp add: flat_pair c1 nonspace_Nil split_sentences_def nonspace_split_sentences_from pp)
  have "flat ((if snd sl \<noteq> [] then fst sl @ [strip (snd sl)] else fst sl), []) = flat (fst sl, snd sl)"
    by (rule flat_flush)
  then have flushed: "flat ((if snd sl \<noteq> [] then fst sl @ [strip (snd sl)] else fst sl), [])
      = nonspace (concat chs) @ nonspace current @ nonspace p0"
    using sl_flat by simp
  have "flat st' = flat st @ nonspace p0"
  proof (cases "p = []")
    case True
    then have "nonspace p0 = []" using pp by (simp add: nonspace_Nil)
    with True show ?thesis by (simp add: st st'_def)
  next
    case False
    show ?thesis
    proof (cases "int (length current) + int (length p) + 1 > m")
      case over: True
      show ?thesis
      proof (cases "int (length p) > m")
        case True
        with False over have "st' = ((if snd sl \<noteq> [] then fst sl @ [strip (snd sl)] else fst sl), [])"
          by (simp add: st'_def)
        then show ?thesis
          by (simp only: flushed) (simp add: st flat_pair)
      next
        case nb: False
        with False over have "st' = (chs1, p)" by (simp add: st'_def)
        then show ?thesis by (simp add: st flat_pair c1 pp)
      qed
    next
      case under: False
      with False have "st' = (chs, (if current \<noteq> [] then current @ [10] @ p else p))"
        by (simp add: st'_def)
      then show ?thesis
        by (simp add: st flat_pair nonspace_append nonspace_Cons nonspace_Nil isspace_newline pp)
    qed
  qed
  then show ?case
    by (simp only: step Cons.IH) (simp add: nonspace_append)
qed

text \<open>
  Claim C3. For every text and every bound, the non-whitespace characters of the
  chunks of \<open>chunk_text\<close>, concatenated in order, are the non-whitespace characters
  of the text, in the same order.
\<close>

theorem chunks_keep_nonspace:
  "nonspace (concat (chunk_text text max_chars)) = nonspace text"
proof (cases "text = []")
  case True
  then show ?thesis by (simp add: chunk_text_def)
next
  case False
  define pl where "pl = paragraph_loop max_chars (split_newlines text) ([], [])"
  have "chunk_text text max_chars = (if snd pl \<noteq> [] then fst pl @ [strip (snd pl)] else fst pl)"
    using False by (simp add: chunk_text_def pl_def split: prod.split)
  then have "nonspace (concat (chunk_text text max_chars))
      = flat ((if snd pl \<noteq> [] then fst pl @ [strip (snd pl)] else fst pl), [])"
    by (simp add: flat_pair nonspace_Nil)
  also have "\<dots> = flat (fst pl, snd pl)"
    by (rule flat_flush)
  also have "\<dots> = flat ([], []) @ nonspace (concat (split_newlines text))"
    unfolding pl_def by (simp add: paragraph_loop_flat)
  also have "\<dots> = nonspace text"
    by (simp add: flat_pair nonspace_Nil split_newlines_def nonspace_split_newlines_from)
  finally show ?thesis .
qed

lemma fits_strip: "\<forall>a\<in>A. strip a = a \<Longrightarrow> fits m A b \<Longrightarrow> fits m A (strip b)"
  using length_strip[of b] by (auto simp: fits_def)

lemma sentence_loop_fits:
  assumes "set ss \<subseteq> A" and "\<forall>a\<in>A. strip a = a"
    and "\<forall>c\<in>set chs. fits m A c" and "buf = [] \<or> fits m A buf"
  shows "(\<forall>c\<in>set (fst (sentence_loop m ss (chs, buf))). fits m A c)
       \<and> (snd (sentence_loop m ss (chs, buf)) = [] \<or> fits m A (snd (sentence_loop m ss (chs, buf))))"
  using assms
proof (induction ss arbitrary: chs buf)
  case Nil
  then show ?case by simp
next
  case (Cons s ss)
  from Cons.prems have s: "fits m A s" and ss: "set ss \<subseteq> A"
    by (auto simp: fits_def)
  show ?case
  proof (cases "int (length buf) + int (length s) + 1 > m")
    case True
    have "\<forall>c\<in>set (if buf \<noteq> [] then chs @ [strip buf] else chs). fits m A c"
      using Cons.prems(2,3,4) fits_strip[of A m buf] by auto
    from Cons.IH[OF ss Cons.prems(2) this, of s] s True show ?thesis
      by simp
  next
    case False
    then have "fits m A (if buf \<noteq> [] then buf @ [32] @ s else s)"
      by (auto simp: fits_def)
    from Cons.IH[OF ss Cons.prems(2,3), of "if buf \<noteq> [] then buf @ [32] @ s else s"] this False
    show ?thesis by simp
  qed
qed

lemma paragraph_loop_fits:
  assumes "\<forall>p\<in>set ps. set (split_sentences (strip p)) \<subseteq> A" and "\<forall>a\<in>A. strip a = a"
    and "\<forall>c\<in>set chs. fits m A c" and "current = [] \<or> int (length current) \<le> m"
  shows "(\<forall>c\<in>set (fst (paragraph_loop m ps (chs, current))). fits m A c)
       \<and> (snd (paragraph_loop m ps (chs, current)) = []
            \<or> int (length (snd (paragraph_loop m ps (chs, current)))) \<le> m)"
  using assms
proof (induction ps arbitrary: chs current)
  case Nil
  then show ?case by simp
next
  case (Cons p0 ps)
  define p where "p = strip p0"
  define chs1 where "chs1 = (if current \<noteq> [] then chs @ [strip current] else chs)"
  define sl where "sl = sentence_loop m (split_sentences p) (chs1, [])"
  define chs3 where "chs3 = (if snd sl \<noteq> [] then fst sl @ [strip (snd sl)] else fst sl)"
  from Cons.prems(1) have ps: "\<forall>p\<in>set ps. set (split_sentences (strip p)) \<subseteq> A"
    and sp: "set (split_sentences p) \<subseteq> A"
    by (simp_all add: p_def)
  note clean = Cons.prems(2)
  have chs1: "\<forall>c\<in>set chs1. fits m A c"
    using Cons.prems(3,4) length_strip[of current] by (auto simp: chs1_def fits_def)
  have sl: "(\<forall>c\<in>set (fst sl). fits m A c) \<and> (snd sl = [] \<or> fits m A (snd sl))"
    unfolding sl_def by (rule sentence_loop_fits[OF sp clean chs1]) simp
  then have chs3: "\<forall>c\<in>set chs3. fits m A c"
    using fits_strip[OF clean, of m "snd sl"] by (auto simp: chs3_def)
  have step: "paragraph_loop m (p0 # ps) (chs, current) =
    (if p = [] then paragraph_loop m ps (chs, current)
     else if int (length current) + int (length p) + 1 > m
     then (if int (length p) > m then paragraph_loop m ps (chs3, [])
           else paragraph_loop m ps (chs1, p))
     else paragraph_loop m ps (chs, (if current \<noteq> [] then current @ [10] @ p else p)))"
    by (simp add: p_def chs1_def sl_def chs3_def Let_def split: prod.split)
  have a: "?case" if "p = []"
    unfolding step using that Cons.IH[OF ps clean Cons.prems(3,4)] by simp
  have b: "?case" if "p \<noteq> []" "int (length current) + int (length p) + 1 > m" "int (length p) > m"
    unfolding step using that Cons.IH[OF ps clean chs3, of "[]"] by simp
  have c: "?case" if "p \<noteq> []" "int (length current) + int (length p) + 1 > m" "\<not> int (length p) > m"
    unfolding step using that Cons.IH[OF ps clean chs1, of p] by simp
  have d: "?case" if "p \<noteq> []" "\<not> int (length current) + int (length p) + 1 > m"
  proof -
    from that have "int (length (if current \<noteq> [] then current @ [10] @ p else p)) \<le> m"
      by auto
    with Cons.IH[OF ps clean Cons.prems(3), of "if current \<noteq> [] then current @ [10] @ p else p"] that
    show ?thesis unfolding step by simp
  qed
  from a b c d show ?case by blast
qed


text \<open>
  Claim C2. For every text and every bound \<open>max_chars\<close>, every chunk returned by
  \<open>chunk_text\<close> has at most \<open>max_chars\<close> characters, or it is, whole and unsplit, one of
  the sentence-like pieces into which a paragraph of the text is split (and that piece
  alone is longer than the bound).
\<close>

theorem chunk_length_bound:
  "\<forall>c\<in>set (chunk_text text max_chars).
     int (length c) \<le> max_chars
     \<or> (\<exists>p\<in>set (split_newlines text). c \<in> set (split_sentences (strip p)))"
proof (cases "text = []")
  case True
  then show ?thesis by (simp add: chunk_text_def)
next
  case False
  define A where "A = (\<Union>p\<in>set (split_newlines text). set (split_sentences (strip p)))"
  define pl where "pl = paragraph_loop max_chars (split_newlines text) ([], [])"
  have sub: "\<forall>p\<in>set (split_newlines text). set (split_sentences (strip p)) \<subseteq> A"
    by (auto simp: A_def)
  have cl: "\<forall>a\<in>A. strip a = a"
    using clean_split_sentences by (auto simp: A_def)
  have inv: "(\<forall>c\<in>set (fst pl). fits max_chars A c)
      \<and> (snd pl = [] \<or> int (length (snd pl)) \<le> max_chars)"
    unfolding pl_def by (rule paragraph_loop_fits[OF sub cl]) simp_all
  have ct: "chunk_text text max_chars = (if snd pl \<noteq> [] then fst pl @ [strip (snd pl)] else fst pl)"
    using False by (simp add: chunk_text_def pl_def split: prod.split)
  have "fits max_chars A c" if "c \<in> set (chunk_text text max_chars)" for c
    using that inv length_strip[of "snd pl"] unfolding ct
    by (auto simp: fits_def split: if_splits)
  then show ?thesis
    by (auto simp: fits_def A_def)
qed

lemmas chunk_simps = chunk_text_def split_newlines_def split_sentences_def strip_def isspace_def
  is_terminator_def str_def Let_def

theorem chunk_length_bound_witness:
  "chunk_text (str ''aaa bbb ccc. ddd'' @ [10] @ str ''e'') 5 = [str ''aaa bbb ccc.'', str ''ddd'', str ''e'']
   \<and> (\<exists>p\<in>set (split_newlines (str ''aaa bbb ccc. ddd'' @ [10] @ str ''e'')).
         str ''aaa bbb ccc.'' \<in> set (split_sentences (strip p)))"
proof -
  let ?t = "str ''aaa bbb ccc. ddd'' @ [10] @ str ''e''"
  have e: "chunk_text ?t 5 = [str ''aaa bbb ccc.'', str ''ddd'', str ''e'']"
    by (simp add: chunk_simps)
  then have "str ''aaa bbb ccc.'' \<in> set (chunk_text ?t 5)"
    by simp
  with chunk_length_bound[of ?t 5]
  have "int (length (str ''aaa bbb ccc.'')) \<le> 5
     \<or> (\<exists>p\<in>set (split_newlines ?t). str ''aaa bbb ccc.'' \<in> set (split_sentences (strip p)))"
    by blast
  moreover have "\<not> int (length (str ''aaa bbb ccc.'')) \<le> 5"
    by (simp add: str_def)
  ultimately show ?thesis using e by blast
qed

section \<open>Extraction and indexing\<close>

lemma bytes_repr_length: "3 \<le> length (bytes_repr data)"
  by (simp add: bytes_repr_def Let_def)

lemma bytes_repr_nonempty: "bytes_repr data \<noteq> []"
  using bytes_repr_length[of data] by auto

lemma extract_text_from_pdf_returns: "\<exists>t. extract_text_from_pdf L d = Inr t"
  by (simp add: extract_text_from_pdf_def split: option.split sum.split)

lemma extract_text_from_docx_returns: "\<exists>t. extract_text_from_docx L d = Inr t"
  by (simp add: extract_text_from_docx_def split: option.split sum.split)

lemma fallback_returns:
  "(if t = [] then (case str_bytes d of Inr r \<Rightarrow> Inr r | Inl e \<Rightarrow> Inr []) else Inr t)
   = (Inr (if t = [] then bytes_repr d else t) :: exn + pystr)"
  by (simp add: str_bytes_def)

lemma parse_plain:
  assumes "\<not> endswith (lower U (upload_name f)) (str ''.pdf'')"
    and "\<not> endswith (lower U (upload_name f)) (str ''.docx'')"
  shows "parse_uploaded_file U L f =
     (case decode_utf8 (upload_data f) of
        Inr t \<Rightarrow> Inr (if t = [] then bytes_repr (upload_data f) else t)
      | Inl e \<Rightarrow> Inr (if upload_data f = [] then bytes_repr (upload_data f)
                         else map unat (upload_data f)))"
  using assms
  by (simp add: parse_uploaded_file_def Let_def decode_latin1_def str_bytes_def split: sum.split)

lemma parse_pdf:
  assumes "endswith (lower U (upload_name f)) (str ''.pdf'')"
  shows "parse_uploaded_file U L f =
     (case extract_text_from_pdf L (upload_data f) of
        Inl e \<Rightarrow> Inl e
      | Inr t \<Rightarrow> Inr (if t = [] then bytes_repr (upload_data f) else t))"
  using assms
  by (simp add: parse_uploaded_file_def Let_def str_bytes_def split: sum.split)

lemma parse_docx:
  assumes "\<not> endswith (lower U (upload_name f)) (str ''.pdf'')"
    and "endswith (lower U (upload_name f)) (str ''.docx'')"
  shows "parse_uploaded_file U L f =
     (case extract_text_from_docx L (upload_data f) of
        Inl e \<Rightarrow> Inl e
      | Inr t \<Rightarrow> Inr (if t = [] then bytes_repr (upload_data f) else t))"
  using assms
  by (simp add: parse_uploaded_file_def Let_def str_bytes_def split: sum.split)

lemma parse_returns: "\<exists>t. parse_uploaded_file U L f = Inr t \<and> t \<noteq> []"
proof (cases "endswith (lower U (upload_name f)) (str ''.pdf'')")
  case True
  obtain t where "extract_text_from_pdf L (upload_data f) = Inr t"
    using extract_text_from_pdf_returns by blast
  then show ?thesis
    by (simp add: parse_pdf[OF True] bytes_repr_nonempty)
next
  case False
  show ?thesis
  proof (cases "endswith (lower U (upload_name f)) (str ''.docx'')")
    case True
    obtain t where "extract_text_from_docx L (upload_data f) = Inr t"
      using extract_text_from_docx_returns by blast
    then show ?thesis
      by (simp add: parse_docx[OF False True] bytes_repr_nonempty)
  next
    case nd: False
    show ?thesis
      by (simp add: parse_plain[OF False nd] bytes_repr_nonempty split: sum.split)
  qed
qed


text \<open>
  Claim C7. For every file name, every byte sequence and any state of the optional
  libraries, \<open>parse_uploaded_file\<close> returns a string and raises nothing. Latin-1
  decoding succeeds for every byte sequence. On the plain-text path the result is the
  UTF-8 text, or else the Latin-1 text; on the PDF and DOCX paths a missing library or
  a failure of the library gives the empty text, which falls through to the rendering
  \<open>str(data)\<close> of the raw bytes.
\<close>

theorem parse_never_raises:
  "(\<exists>t. parse_uploaded_file U L f = Inr t)
   \<and> (\<exists>t. decode_latin1 (upload_data f) = Inr t)
   \<and> (\<not> endswith (lower U (upload_name f)) (str ''.pdf'')
        \<and> \<not> endswith (lower U (upload_name f)) (str ''.docx'') \<longrightarrow>
      parse_uploaded_file U L f =
        (case decode_utf8 (upload_data f) of
           Inr t \<Rightarrow> Inr (if t = [] then bytes_repr (upload_data f) else t)
         | Inl e \<Rightarrow> Inr (if upload_data f = [] then bytes_repr (upload_data f)
                            else map unat (upload_data f))))
   \<and> (endswith (lower U (upload_name f)) (str ''.pdf'')
        \<and> (PyPDF2 L = None \<or> (\<exists>r e. PyPDF2 L = Some r \<and> r (upload_data f) = Inl e)) \<longrightarrow>
      parse_uploaded_file U L f = Inr (bytes_repr (upload_data f)))
   \<and> (\<not> endswith (lower U (upload_name f)) (str ''.pdf'')
        \<and> endswith (lower U (upload_name f)) (str ''.docx'')
        \<and> (docx L = None \<or> (\<exists>r e. docx L = Some r \<and> r (upload_data f) = Inl e)) \<longrightarrow>
      parse_uploaded_file U L f = Inr (bytes_repr (upload_data f)))"
proof (intro conjI impI)
  show "\<exists>t. parse_uploaded_file U L f = Inr t"
    using parse_returns by blast
  show "\<exists>t. decode_latin1 (upload_data f) = Inr t"
    by (simp add: decode_latin1_def)
next
  assume "\<not> endswith (lower U (upload_name f)) (str ''.pdf'')
        \<and> \<not> endswith (lower U (upload_name f)) (str ''.docx'')"
  then show "parse_uploaded_file U L f =
        (case decode_utf8 (upload_data f) of
           Inr t \<Rightarrow> Inr (if t = [] then bytes_repr (upload_data f) else t)
         | Inl e \<Rightarrow> Inr (if upload_data f = [] then bytes_repr (upload_data f)
                            else map unat (upload_data f)))"
    by (simp add: parse_plain)
next
  assume a: "endswith (lower U (upload_name f)) (str ''.pdf'')
        \<and> (PyPDF2 L = None \<or> (\<exists>r e. PyPDF2 L = Some r \<and> r (upload_data f) = Inl e))"
  then have "extract_text_from_pdf L (upload_data f) = Inr []"
    by (auto simp: extract_text_from_pdf_def)
  with a show "parse_uploaded_file U L f = Inr (bytes_repr (upload_data f))"
    by (simp add: parse_pdf)
next
  assume a: "\<not> endswith (lower U (upload_name f)) (str ''.pdf'')
        \<and> endswith (lower U (upload_name f)) (str ''.docx'')
        \<and> (docx L = None \<or> (\<exists>r e. docx L = Some r \<and> r (upload_data f) = Inl e))"
  then have "extract_text_from_docx L (upload_data f) = Inr []"
    by (auto simp: extract_text_from_docx_def)
  with a show "parse_uploaded_file U L f = Inr (bytes_repr (upload_data f))"
    by (simp add: parse_docx)
qed

lemmas name_simps = ascii_simps endswith_def

theorem parse_never_raises_witness:
  "parse_uploaded_file ascii no_libraries \<lparr>upload_name = str ''notes.txt'', upload_data = [0xFF, 0xFE]\<rparr>
     = Inr [255, 254]
   \<and> parse_uploaded_file ascii no_libraries \<lparr>upload_name = str ''Scan.PDF'', upload_data = [0xFF, 0xFE]\<rparr>
     = Inr ([98, 39, 92, 120, 102, 102, 92, 120, 102, 101, 39])
   \<and> parse_uploaded_file ascii failing_libraries \<lparr>upload_name = str ''letter.docx'', upload_data = [0x50, 0x4B]\<rparr>
     = Inr (str ''b'' @ [39] @ str ''PK'' @ [39])"
proof -
  let ?a = "\<lparr>upload_name = str ''notes.txt'', upload_data = [0xFF, 0xFE]\<rparr>"
  let ?b = "\<lparr>upload_name = str ''Scan.PDF'', upload_data = [0xFF, 0xFE]\<rparr>"
  let ?c = "\<lparr>upload_name = str ''letter.docx'', upload_data = [0x50, 0x4B]\<rparr>"
  have a: "\<not> endswith (lower ascii (upload_name ?a)) (str ''.pdf'')
        \<and> \<not> endswith (lower ascii (upload_name ?a)) (str ''.docx'')"
    by (simp add: name_simps)
  have b: "endswith (lower ascii (upload_name ?b)) (str ''.pdf'')
        \<and> (PyPDF2 no_libraries = None
             \<or> (\<exists>r e. PyPDF2 no_libraries = Some r \<and> r (upload_data ?b) = Inl e))"
    by (simp add: name_simps no_libraries_def)
  have c: "\<not> endswith (lower ascii (upload_name ?c)) (str ''.pdf'')
        \<and> endswith (lower ascii (upload_name ?c)) (str ''.docx'')
        \<and> (docx failing_libraries = None
             \<or> (\<exists>r e. docx failing_libraries = Some r \<and> r (upload_data ?c) = Inl e))"
    by (simp add: name_simps failing_libraries_def)
  have "parse_uploaded_file ascii no_libraries ?a = Inr [255, 254]"
    using parse_never_raises[of ascii no_libraries ?a] a
    by (simp add: decode_utf8_def)
  moreover have "parse_uploaded_file ascii no_libraries ?b = Inr (bytes_repr [0xFF, 0xFE])"
    using parse_never_raises[of ascii no_libraries ?b] b by simp
  moreover have "parse_uploaded_file ascii failing_libraries ?c = Inr (bytes_repr [0x50, 0x4B])"
    using parse_never_raises[of ascii failing_libraries ?c] c by simp
  moreover have "bytes_repr [0xFF, 0xFE] = [98, 39, 92, 120, 102, 102, 92, 120, 102, 101, 39]"
    by (simp add: bytes_repr_def repr_byte_def hex_digit_def str_def)
  moreover have "bytes_repr [0x50, 0x4B] = str ''b'' @ [39] @ str ''PK'' @ [39]"
    by (simp add: bytes_repr_def repr_byte_def hex_digit_def str_def)
  ultimately show ?thesis by simp
qed


lemma index_uploaded_files_appends:
  "\<exists>docs. index_uploaded_files U L fs session = Inr (session @ docs)
      \<and> list_all2 (indexed U L) fs docs"
proof (induction fs arbitrary: session)
  case Nil
  then show ?case by simp
next
  case (Cons f fs)
  obtain t where t: "parse_uploaded_file U L f = Inr t"
    using parse_returns by blast
  let ?d = "\<lparr>name = upload_name f, text_str = t, chunks = chunk_text t 1200\<rparr>"
  obtain docs where docs: "index_uploaded_files U L fs (session @ [?d]) = Inr ((session @ [?d]) @ docs)"
    "list_all2 (indexed U L) fs docs"
    using Cons.IH by blast
  have "indexed U L f ?d"
    by (simp add: indexed_def t)
  with docs t have "index_uploaded_files U L (f # fs) session = Inr (session @ (?d # docs))
      \<and> list_all2 (indexed U L) (f # fs) (?d # docs)"
    by simp
  then show ?case by blast
qed

lemma indexed_text_nonempty: "indexed U L f uf \<Longrightarrow> text_str uf \<noteq> []"
  using parse_returns[of U L f] by (auto simp: indexed_def)

text \<open>
  Claim C6, amended. Whatever the documents of the session were, a non-empty list of
  uploaded files leaves exactly one document for each file of the list, in the order of
  the list: same name, the parsed text, its chunks; nothing of the earlier documents is
  kept and files of equal names are not merged. An empty list leaves the documents of
  the session as they were.
\<close>

theorem upload_replaces_corpus:
  "(uploaded \<noteq> [] \<longrightarrow>
      (\<exists>docs. file_uploader_handler U L uploaded session = Inr docs
           \<and> list_all2 (indexed U L) uploaded docs
           \<and> length docs = length uploaded
           \<and> map name docs = map upload_name uploaded))
   \<and> file_uploader_handler U L [] session = Inr session"
proof (intro conjI impI)
  assume ne: "uploaded \<noteq> []"
  obtain docs where d: "index_uploaded_files U L uploaded [] = Inr ([] @ docs)"
    "list_all2 (indexed U L) uploaded docs"
    using index_uploaded_files_appends by blast
  from d(2) have "length docs = length uploaded"
    by (simp add: list_all2_lengthD)
  moreover from d(2) have "map name docs = map upload_name uploaded"
    by (induction rule: list_all2_induct) (simp_all add: indexed_def)
  ultimately show "\<exists>docs. file_uploader_handler U L uploaded session = Inr docs
           \<and> list_all2 (indexed U L) uploaded docs
           \<and> length docs = length uploaded
           \<and> map name docs = map upload_name uploaded"
    using ne d by (simp add: file_uploader_handler_def)
next
  show "file_uploader_handler U L [] session = Inr session"
    by (simp add: file_uploader_handler_def)
qed

lemma hi_parse: "parse_uploaded_file ascii no_libraries hi_file = Inr (str ''hi'')"
  by (simp add: parse_uploaded_file_def hi_file_def name_simps decode_utf8_def)

lemma hi_chunks: "chunk_text (str ''hi'') 1200 = [str ''hi'']"
  by (simp add: chunk_simps)

lemma hi_upload: "file_uploader_handler ascii no_libraries [hi_file, hi_file] session = Inr [hi_doc, hi_doc]"
  by (simp add: file_uploader_handler_def hi_parse hi_chunks)
     (simp add: hi_file_def hi_doc_def)

theorem upload_replaces_corpus_witness:
  "file_uploader_handler ascii no_libraries [hi_file, hi_file] [cat_doc] = Inr [hi_doc, hi_doc]
   \<and> list_all2 (indexed ascii no_libraries) [hi_file, hi_file] [hi_doc, hi_doc]"
proof -
  have "[hi_file, hi_file] \<noteq> []" by simp
  with upload_replaces_corpus[of "[hi_file, hi_file]" ascii no_libraries "[cat_doc]"]
    hi_upload[of "[cat_doc]"]
  show ?thesis by simp
qed

text \<open>
  Claim C6 as stated fails for the empty batch: after a batch of one file, a run with
  an empty uploader leaves the document of the first batch in the corpus, which is not
  the (empty) list of the documents of the second.
\<close>

theorem empty_upload_keeps_corpus_counterexample:
  "run_uploads ascii no_libraries [[hi_file], []] [] = Inr [hi_doc]
   \<and> \<not> list_all2 (indexed ascii no_libraries) [] [hi_doc]"
  by (simp add: file_uploader_handler_def hi_parse hi_chunks)
     (simp add: hi_file_def hi_doc_def)

lemma handler_texts_nonempty:
  assumes "\<forall>uf\<in>set session. text_str uf \<noteq> []"
  shows "\<exists>session'. file_uploader_handler U L b session = Inr session'
           \<and> (\<forall>uf\<in>set session'. text_str uf \<noteq> [])"
proof (cases "b = []")
  case True
  with assms show ?thesis by (simp add: file_uploader_handler_def)
next
  case False
  obtain docs where d: "index_uploaded_files U L b [] = Inr ([] @ docs)"
    "list_all2 (indexed U L) b docs"
    using index_uploaded_files_appends by blast
  have "text_str uf \<noteq> []" if "uf \<in> set docs" for uf
  proof -
    from that d(2) obtain f where "indexed U L f uf"
      by (auto simp: list_all2_conv_all_nth in_set_conv_nth)
    then show ?thesis by (rule indexed_text_nonempty)
  qed
  with False d show ?thesis by (simp add: file_uploader_handler_def)
qed

lemma run_uploads_texts_nonempty:
  assumes "\<forall>uf\<in>set session. text_str uf \<noteq> []"
  shows "\<exists>session'. run_uploads U L batches session = Inr session'
           \<and> (\<forall>uf\<in>set session'. text_str uf \<noteq> [])"
  using assms
proof (induction batches arbitrary: session)
  case Nil
  then show ?case by simp
next
  case (Cons b bs)
  obtain s1 where s1: "file_uploader_handler U L b session = Inr s1"
    "\<forall>uf\<in>set s1. text_str uf \<noteq> []"
    using handler_texts_nonempty[OF Cons.prems] by blast
  from Cons.IH[OF s1(2)] s1(1) show ?case by simp
qed

text \<open>
  Claim C10. For every uploaded file the text that \<open>parse_uploaded_file\<close> returns is
  not empty: the final fallback \<open>str(data)\<close> has at least the three characters of
  \<open>b''\<close>, which is the text of a plain file without content. Hence, after any sequence
  of uploads from the empty session, every document has a text and a preview, and the
  branch that reports a missing preview is never taken.
\<close>

theorem parsed_text_never_empty:
  "(\<exists>t. parse_uploaded_file U L f = Inr t \<and> t \<noteq> [])
   \<and> 3 \<le> length (bytes_repr (upload_data f))
   \<and> (\<exists>session. run_uploads U L batches [] = Inr session
         \<and> (\<forall>uf\<in>set session. text_str uf \<noteq> [] \<and> \<not> preview_missing uf))
   \<and> parse_uploaded_file ascii L \<lparr>upload_name = str ''empty.txt'', upload_data = []\<rparr>
        = Inr [98, 39, 39]"
proof (intro conjI)
  show "\<exists>t. parse_uploaded_file U L f = Inr t \<and> t \<noteq> []"
    by (rule parse_returns)
  show "3 \<le> length (bytes_repr (upload_data f))"
    by (rule bytes_repr_length)
  obtain session where s: "run_uploads U L batches [] = Inr session"
    "\<forall>uf\<in>set session. text_str uf \<noteq> []"
    using run_uploads_texts_nonempty[of "[]" U L batches] by auto
  then show "\<exists>session. run_uploads U L batches [] = Inr session
         \<and> (\<forall>uf\<in>set session. text_str uf \<noteq> [] \<and> \<not> preview_missing uf)"
    by (auto simp: preview_missing_def preview_def)
  show "parse_uploaded_file ascii L \<lparr>upload_name = str ''empty.txt'', upload_data = []\<rparr>
        = Inr [98, 39, 39]"
    by (simp add: parse_uploaded_file_def name_simps decode_utf8_def str_bytes_def bytes_repr_def)
qed

theorem parsed_text_never_empty_witness:
  "run_uploads ascii no_libraries [[hi_file], [\<lparr>upload_name = str ''empty.txt'', upload_data = []\<rparr>]] []
     = Inr [\<lparr>name = str ''empty.txt'', text_str = [98, 39, 39], chunks = [[98, 39, 39]]\<rparr>]
   \<and> \<not> preview_missing \<lparr>name = str ''empty.txt'', text_str = [98, 39, 39], chunks = [[98, 39, 39]]\<rparr>"
proof -
  let ?e = "\<lparr>upload_name = str ''empty.txt'', upload_data = []\<rparr>"
  let ?d = "\<lparr>name = str ''empty.txt'', text_str = [98, 39, 39], chunks = [[98, 39, 39]]\<rparr>"
  have p: "parse_uploaded_file ascii no_libraries ?e = Inr [98, 39, 39]"
    using parsed_text_never_empty[of ascii no_libraries ?e "[]"] by simp
  have c: "chunk_text [98, 39, 39] 1200 = [[98, 39, 39]]"
    by (simp add: chunk_simps)
  have r: "run_uploads ascii no_libraries [[hi_file], [?e]] [] = Inr [?d]"
    by (simp add: file_uploader_handler_def hi_parse hi_chunks p c)
  moreover have "\<not> preview_missing ?d"
    using parsed_text_never_empty[of ascii no_libraries ?e "[[hi_file], [?e]]"] r by simp
  ultimately show ?thesis by simp
qed

section \<open>Highlighting\<close>

lemma takeWhile_run:
  assumes "\<forall>c\<in>set w. P c" and "post = [] \<or> \<not> P (hd post)"
  shows "takeWhile P (w @ post) = w" and "dropWhile P (w @ post) = post"
proof -
  from assms(2) have "takeWhile P post = []" and "dropWhile P post = post"
    by (cases post; simp)+
  with assms(1) show "takeWhile P (w @ post) = w" and "dropWhile P (w @ post) = post"
    by (simp_all add: takeWhile_append2 dropWhile_append2)
qed

lemma highlight_run:
  assumes "w \<noteq> []" and "\<forall>c\<in>set w. is_word U c" and "post = [] \<or> \<not> is_word U (hd post)"
  shows "highlight U Q (w @ post) = repl U Q w @ highlight U Q post"
proof -
  from assms(1) obtain c w' where w: "w = c # w'" by (cases w) auto
  with assms(2) have c: "is_word U c" and w': "\<forall>c\<in>set w'. is_word U c" by simp_all
  from takeWhile_run[OF w' assms(3)] c show ?thesis
    by (simp add: w)
qed

lemma findall_w_run:
  assumes "w \<noteq> []" and "\<forall>c\<in>set w. is_word U c" and "post = [] \<or> \<not> is_word U (hd post)"
  shows "findall_w U (w @ post) = w # findall_w U post"
proof -
  from assms(1) obtain c w' where w: "w = c # w'" by (cases w) auto
  with assms(2) have c: "is_word U c" and w': "\<forall>c\<in>set w'. is_word U c" by simp_all
  from takeWhile_run[OF w' assms(3)] c show ?thesis
    by (simp add: w)
qed

lemma run_before_nonword:
  assumes "cs \<noteq> []" and "\<not> P (last cs)"
  shows "takeWhile P (cs @ rest) = takeWhile P cs
    \<and> dropWhile P (cs @ rest) = dropWhile P cs @ rest
    \<and> dropWhile P cs \<noteq> [] \<and> \<not> P (last (dropWhile P cs))"
proof -
  from assms have m: "last cs \<in> set cs" by simp
  with assms(2) have a: "takeWhile P (cs @ rest) = takeWhile P cs"
    by (simp add: takeWhile_append1)
  from m assms(2) have b: "dropWhile P (cs @ rest) = dropWhile P cs @ rest"
    by (simp add: dropWhile_append1)
  from m assms(2) have ne: "dropWhile P cs \<noteq> []"
    by (auto simp: dropWhile_eq_Nil_conv)
  then have "\<not> P (last (dropWhile P cs))"
    using assms(2) by (simp add: last_dropWhile)
  with a b ne show ?thesis by simp
qed

lemma highlight_append:
  "pre = [] \<or> \<not> is_word U (last pre) \<Longrightarrow>
   highlight U Q (pre @ rest) = highlight U Q pre @ highlight U Q rest"
proof (induction U Q pre rule: highlight.induct)
  case (1 U Q)
  then show ?case by simp
next
  case (2 U Q c cs)
  show ?case
  proof (cases "is_word U c")
    case True
    with "2.prems" have cs: "cs \<noteq> []" "\<not> is_word U (last cs)"
      by (auto split: if_splits)
    from run_before_nonword[where P = "is_word U" and rest = rest, OF cs]
    have r: "takeWhile (is_word U) (cs @ rest) = takeWhile (is_word U) cs"
      "dropWhile (is_word U) (cs @ rest) = dropWhile (is_word U) cs @ rest"
      "dropWhile (is_word U) cs \<noteq> []" "\<not> is_word U (last (dropWhile (is_word U) cs))"
      by simp_all
    from "2.IH"(1)[OF True] r(3,4)
    have "highlight U Q (dropWhile (is_word U) cs @ rest)
        = highlight U Q (dropWhile (is_word U) cs) @ highlight U Q rest"
      by simp
    with True r(1,2) show ?thesis by simp
  next
    case False
    from "2.prems" have "cs = [] \<or> \<not> is_word U (last cs)"
      by (auto split: if_splits)
    from "2.IH"(2)[OF False this] False show ?thesis by simp
  qed
qed

lemma findall_w_append:
  "pre = [] \<or> \<not> is_word U (last pre) \<Longrightarrow>
   findall_w U (pre @ rest) = findall_w U pre @ findall_w U rest"
proof (induction U pre rule: findall_w.induct)
  case (1 U)
  then show ?case by simp
next
  case (2 U c cs)
  show ?case
  proof (cases "is_word U c")
    case True
    with "2.prems" have cs: "cs \<noteq> []" "\<not> is_word U (last cs)"
      by (auto split: if_splits)
    from run_before_nonword[where P = "is_word U" and rest = rest, OF cs]
    have r: "takeWhile (is_word U) (cs @ rest) = takeWhile (is_word U) cs"
      "dropWhile (is_word U) (cs @ rest) = dropWhile (is_word U) cs @ rest"
      "dropWhile (is_word U) cs \<noteq> []" "\<not> is_word U (last (dropWhile (is_word U) cs))"
      by simp_all
    from "2.IH"(1)[OF True] r(3,4)
    have "findall_w U (dropWhile (is_word U) cs @ rest)
        = findall_w U (dropWhile (is_word U) cs) @ findall_w U rest"
      by simp
    with True r(1,2) show ?thesis by simp
  next
    case False
    from "2.prems" have "cs = [] \<or> \<not> is_word U (last cs)"
      by (auto split: if_splits)
    from "2.IH"(2)[OF False this] False show ?thesis by simp
  qed
qed

lemma join_contains: "x \<in> set xs \<Longrightarrow> \<exists>a b. join sep xs = a @ x @ b"
proof (induction sep xs rule: join.induct)
  case (1 sep)
  then show ?case by simp
next
  case (2 sep y)
  then have "join sep [y] = [] @ x @ []" by simp
  then show ?case by blast
next
  case (3 sep y z zs)
  show ?case
  proof (cases "x = y")
    case True
    then have "join sep (y # z # zs) = [] @ x @ (sep @ join sep (z # zs))" by simp
    then show ?thesis by blast
  next
    case False
    with "3.prems" have "x \<in> set (z # zs)" by simp
    from "3.IH"[OF this] obtain a b where "join sep (z # zs) = a @ x @ b" by blast
    then have "join sep (y # z # zs) = (y @ sep @ a) @ x @ b" by simp
    then show ?thesis by blast
  qed
qed

lemma answer_contains_highlight:
  assumes "m \<in> set matches"
  shows "\<exists>a b. build_answer_from_matches U matches query
           = a @ highlight U (qtokens_of U query) (snippet_of m) @ b"
proof -
  let ?lines = "[str ''I searched your uploaded files and found these relevant passages:'']
              @ map (match_line U query) matches
              @ [[10] @ str ''If you'' @ [39] @ str ''d like, ask me to summarize these passages, ''
                   @ str ''or ask a follow-up that references a file name.'']"
  from assms have "match_line U query m \<in> set ?lines" by simp
  from join_contains[OF this, of "[10, 10]"] obtain a b
    where j: "join [10, 10] ?lines = a @ match_line U query m @ b" by blast
  obtain h where "match_line U query m = h @ highlight U (qtokens_of U query) (snippet_of m)"
    by (simp add: match_line_def)
  with j have "join [10, 10] ?lines = (a @ h) @ highlight U (qtokens_of U query) (snippet_of m) @ b"
    by simp
  moreover from assms have "matches \<noteq> []" by auto
  ultimately show ?thesis
    unfolding build_answer_from_matches_def by (simp only: if_False) blast
qed

text \<open>
  Claim C9. Let \<open>w\<close> be a word token of a snippet: a non-empty run of word characters
  with no word character right before or right after it. Then \<open>w\<close> is one of the
  tokens that \<open>\w+\<close> finds in the snippet, and in the highlighted snippet it stands in
  backticks if its lowercase form is among the (deduplicated) lowercased tokens of the
  query, and unchanged otherwise; the text before and after is highlighted on its own.
  Two queries with the same set of tokens highlight alike, however often a token is
  repeated. The answer of the composer holds, for each match, its snippet highlighted
  in this way.
\<close>

theorem highlight_marks_query_tokens:
  assumes "w \<noteq> []" and "\<forall>c\<in>set w. is_word U c"
    and "pre = [] \<or> \<not> is_word U (last pre)" and "post = [] \<or> \<not> is_word U (hd post)"
  shows "findall_w U (pre @ w @ post) = findall_w U pre @ [w] @ findall_w U post
    \<and> highlight U (qtokens_of U query) (pre @ w @ post)
        = highlight U (qtokens_of U query) pre
          @ (if lower U w \<in> set (remdups (findall_w U (lower U query))) then [96] @ w @ [96] else w)
          @ highlight U (qtokens_of U query) post
    \<and> (set (findall_w U (lower U query')) = set (findall_w U (lower U query)) \<longrightarrow>
          highlight U (qtokens_of U query') snippet = highlight U (qtokens_of U query) snippet)
    \<and> (m \<in> set matches \<longrightarrow>
          (\<exists>a b. build_answer_from_matches U matches query
             = a @ highlight U (qtokens_of U query) (snippet_of m) @ b))"
proof (intro conjI impI)
  show "findall_w U (pre @ w @ post) = findall_w U pre @ [w] @ findall_w U post"
    using assms by (simp add: findall_w_append findall_w_run)
  show "highlight U (qtokens_of U query) (pre @ w @ post)
        = highlight U (qtokens_of U query) pre
          @ (if lower U w \<in> set (remdups (findall_w U (lower U query))) then [96] @ w @ [96] else w)
          @ highlight U (qtokens_of U query) post"
    using assms by (simp add: highlight_append highlight_run repl_def qtokens_of_def)
next
  assume "set (findall_w U (lower U query')) = set (findall_w U (lower U query))"
  then show "highlight U (qtokens_of U query') snippet = highlight U (qtokens_of U query) snippet"
    by (simp add: qtokens_of_def)
next
  assume "m \<in> set matches"
  then show "\<exists>a b. build_answer_from_matches U matches query
             = a @ highlight U (qtokens_of U query) (snippet_of m) @ b"
    by (rule answer_contains_highlight)
qed

lemma concat_tokens: "findall_w ascii (lower ascii (str ''cat CAT cat'')) = [str ''cat'', str ''cat'', str ''cat'']"
  by (simp add: ascii_simps)

theorem highlight_marks_query_tokens_witness:
  "highlight ascii (qtokens_of ascii (str ''cat CAT cat'')) (str ''A Cat, concat; cat'')
     = str ''A '' @ [96] @ str ''Cat'' @ [96] @ str '', concat; '' @ [96] @ str ''cat'' @ [96]"
proof -
  let ?Q = "qtokens_of ascii (str ''cat CAT cat'')"
  have q: "set (remdups (findall_w ascii (lower ascii (str ''cat CAT cat'')))) = {str ''cat''}"
    by (simp add: ascii_simps)
  have a: "highlight ascii ?Q (str ''A '' @ str ''Cat'' @ str '', concat; cat'')
      = highlight ascii ?Q (str ''A '') @ ([96] @ str ''Cat'' @ [96]) @ highlight ascii ?Q (str '', concat; cat'')"
    using highlight_marks_query_tokens[of "str ''Cat''" ascii "str ''A ''" "str '', concat; cat''" "str ''cat CAT cat''"]
    unfolding q by (simp add: ascii_simps)
  have b: "highlight ascii ?Q (str '', '' @ str ''concat'' @ str ''; cat'')
      = highlight ascii ?Q (str '', '') @ str ''concat'' @ highlight ascii ?Q (str ''; cat'')"
    using highlight_marks_query_tokens[of "str ''concat''" ascii "str '', ''" "str ''; cat''" "str ''cat CAT cat''"]
    unfolding q by (simp add: ascii_simps)
  have c: "highlight ascii ?Q (str ''; '' @ str ''cat'' @ [])
      = highlight ascii ?Q (str ''; '') @ ([96] @ str ''cat'' @ [96]) @ highlight ascii ?Q []"
    using highlight_marks_query_tokens[of "str ''cat''" ascii "str ''; ''" "[]" "str ''cat CAT cat''"]
    unfolding q by (simp add: ascii_simps)
  show ?thesis
    using a b c by (simp add: ascii_simps repl_def qtokens_of_def)
qed

end
